theory Spec2Isabelle
  imports Main "HOL-Library.AList"
begin

section \<open>Values of the state tree\<close>

text \<open>
  The stores keep plain nested data. A value is \<open>undefined\<close>, \<open>null\<close>, a primitive, or a
  plain object, written as the list of its own entries in insertion order. Numbers are
  opaque to the store apart from their truthiness, so they are integers here. Arrays,
  functions and class instances are left out of the value type, and a property read
  never reaches a prototype: a path segment is taken not to name a built-in member
  (such as \<open>length\<close> of a string).
\<close>

datatype jsval =
    JUndefined
  | JNull
  | JBool bool
  | JNum int
  | JStr string
  | JObj "(string \<times> jsval) list"

datatype error = TypeError

text \<open>What \<open>if (x)\<close>, \<open>!x\<close>, \<open>x && y\<close> and \<open>x || y\<close> test.\<close>

fun truthy :: "jsval \<Rightarrow> bool" where
  "truthy JUndefined = False"
| "truthy JNull = False"
| "truthy (JBool b) = b"
| "truthy (JNum n) = (n \<noteq> 0)"
| "truthy (JStr s) = (s \<noteq> [])"
| "truthy (JObj kvs) = True"

text \<open>
  \<open>o[k]\<close> as an expression: a TypeError on \<open>undefined\<close> and \<open>null\<close>, \<open>undefined\<close> for a
  key the object does not have and for any key of a primitive.
\<close>

fun getProp :: "jsval \<Rightarrow> string \<Rightarrow> error + jsval" where
  "getProp JUndefined k = Inl TypeError"
| "getProp JNull k = Inl TypeError"
| "getProp (JObj kvs) k = Inr (case map_of kvs k of None \<Rightarrow> JUndefined | Some v \<Rightarrow> v)"
| "getProp v k = Inr JUndefined"

text \<open>
  \<open>o[k] = v\<close>. Class bodies are strict code, so the assignment raises a TypeError
  when \<open>o\<close> is not an object. An existing key keeps its place, a new key goes last.
\<close>

fun setProp :: "jsval \<Rightarrow> string \<Rightarrow> jsval \<Rightarrow> error + jsval" where
  "setProp (JObj kvs) k v = Inr (JObj (AList.update k v kvs))"
| "setProp p k v = Inl TypeError"

text \<open>\<open>delete o[k]\<close>: removes an own key of an object; nothing to remove on a primitive.\<close>

fun deleteProp :: "jsval \<Rightarrow> string \<Rightarrow> error + jsval" where
  "deleteProp JUndefined k = Inl TypeError"
| "deleteProp JNull k = Inl TypeError"
| "deleteProp (JObj kvs) k = Inr (JObj (AList.delete k kvs))"
| "deleteProp v k = Inr v"

text \<open>
  The source mutates containers in place through references. The tree is a value here,
  so a write to the container reached from \<open>root\<close> along \<open>keys\<close> rebuilds the tree along
  that path: \<open>putChild\<close> stores a changed child back under its key, \<open>putAt\<close> does so for
  every container on the way. Stored values are taken to be unshared.
\<close>

fun putChild :: "jsval \<Rightarrow> string \<Rightarrow> jsval \<Rightarrow> jsval" where
  "putChild (JObj kvs) k c = JObj (AList.update k c kvs)"
| "putChild p k c = p"

fun childOf :: "jsval \<Rightarrow> string \<Rightarrow> jsval" where
  "childOf (JObj kvs) k = (case map_of kvs k of None \<Rightarrow> JUndefined | Some v \<Rightarrow> v)"
| "childOf p k = JUndefined"

fun putAt :: "jsval \<Rightarrow> string list \<Rightarrow> jsval \<Rightarrow> jsval" where
  "putAt root [] c = c"
| "putAt root (k # ks) c = putChild root k (putAt (childOf root k) ks c)"

subsection \<open>deepClone\<close>

text \<open>
  \<open>Object.fromEntries\<close>: entries are assigned in order, so a repeated key keeps its
  first place and its last value.
\<close>

definition fromEntries :: "(string \<times> jsval) list \<Rightarrow> (string \<times> jsval) list" where
  "fromEntries es = foldl (\<lambda>acc e. AList.update (fst e) (snd e) acc) [] es"

fun deepClone :: "jsval \<Rightarrow> jsval" where
  "deepClone (JObj kvs) = JObj (fromEntries (map (\<lambda>e. (fst e, deepClone (snd e))) kvs))"
| "deepClone v = v"

text \<open>\<open>a || b\<close>\<close>

definition orElse :: "jsval \<Rightarrow> jsval \<Rightarrow> jsval" where
  "orElse a b = (if truthy a then a else b)"

section \<open>Paths\<close>

text \<open>\<open>path.split('.')\<close>: never empty; the empty string splits into one empty segment.\<close>

fun split_dot :: "string \<Rightarrow> string list" where
  "split_dot [] = [[]]"
| "split_dot (c # cs) =
     (if c = CHR ''.'' then [] # split_dot cs
      else (case split_dot cs of [] \<Rightarrow> [[c]] | w # ws \<Rightarrow> (c # w) # ws))"

text \<open>
  The \<open>reduce\<close> of \<open>getCachedPath\<close>: the accumulator holds one prefix path per segment seen
  so far, so \<open>index === 0\<close> is \<open>acc = []\<close> and \<open>acc[index - 1]\<close> is \<open>last acc\<close>.
\<close>

definition pushPath :: "string list \<Rightarrow> string \<Rightarrow> string list" where
  "pushPath acc key = (if acc = [] then acc @ [key] else acc @ [last acc @ ''.'' @ key])"

definition allPathsOf :: "string list \<Rightarrow> string list" where
  "allPathsOf keys = foldl pushPath [] keys"

record pathInfo =
  parentKeys :: "string list"
  parentPaths :: "string list"
  currentKey :: string

text \<open>The parse of \<open>getCachedPath\<close> in the single-object store.\<close>

definition parsePath :: "string \<Rightarrow> pathInfo" where
  "parsePath path =
     (let keys = split_dot path;
          allPaths = allPathsOf keys
      in \<lparr> parentKeys = butlast keys,
           parentPaths = (if length allPaths > 1 then butlast allPaths else []),
           currentKey = last keys \<rparr>)"

section \<open>The single-object store\<close>

text \<open>
  A callback is known by its identity only. Calling one is recorded in \<open>calls\<close>, with
  the registry it was found in; the body of a callback is taken not to call back into
  the store.
\<close>

type_synonym callback = nat

datatype event =
    PathCall string callback
  | KeysCall callback
  | SizeCall callback

record propInfo =
  parentProp :: jsval
  fallbackProp :: jsval
  initialProp :: jsval

record store =
  data :: jsval
  initialData :: jsval
  fallbackData :: jsval
  pathCache :: "(string \<times> pathInfo) list"
  propertyCache :: "(string \<times> propInfo) list"
  dependencyCache :: "(string \<times> string list) list"
  subscribers :: "(string \<times> callback list) list"
  calls :: "event list"

text \<open>\<open>Set.add\<close>: a set keeps insertion order and holds no element twice.\<close>

definition setAdd :: "'a \<Rightarrow> 'a list \<Rightarrow> 'a list" where
  "setAdd x xs = (if x \<in> set xs then xs else xs @ [x])"

definition create :: "jsval \<Rightarrow> jsval \<Rightarrow> store" where
  "create initialData0 fallbackData0 =
     \<lparr> data = deepClone (orElse initialData0 (JObj [])),
       initialData = deepClone (orElse initialData0 (JObj [])),
       fallbackData = deepClone (orElse fallbackData0 (JObj [])),
       pathCache = [],
       propertyCache = [],
       dependencyCache = [],
       subscribers = [],
       calls = [] \<rparr>"

subsection \<open>Subscribers\<close>

definition addSubscriber :: "string \<Rightarrow> callback \<Rightarrow> store \<Rightarrow> store" where
  "addSubscriber path callback s =
     (let subs = (if map_of (subscribers s) path = None
                  then AList.update path [] (subscribers s) else subscribers s)
      in case map_of subs path of
           None \<Rightarrow> s\<lparr>subscribers := subs\<rparr>
         | Some cbs \<Rightarrow> s\<lparr>subscribers := AList.update path (setAdd callback cbs) subs\<rparr>)"

definition removeSubscriber :: "string \<Rightarrow> callback \<Rightarrow> store \<Rightarrow> store" where
  "removeSubscriber path callback s =
     (case map_of (subscribers s) path of
        None \<Rightarrow> s
      | Some cbs \<Rightarrow>
          (let cbs' = removeAll callback cbs
           in if length cbs' = 0
              then s\<lparr>subscribers := AList.delete path (subscribers s)\<rparr>
              else s\<lparr>subscribers := AList.update path cbs' (subscribers s)\<rparr>))"

definition notifySubscribers :: "string \<Rightarrow> store \<Rightarrow> store" where
  "notifySubscribers path s =
     (case map_of (subscribers s) path of
        None \<Rightarrow> s
      | Some cbs \<Rightarrow> s\<lparr>calls := calls s @ map (PathCall path) cbs\<rparr>)"

subsection \<open>Cached helpers\<close>

definition addDependency ::
  "string \<Rightarrow> (string \<times> string list) list \<Rightarrow> string \<Rightarrow> (string \<times> string list) list" where
  "addDependency path dc parentPath =
     (let dc1 = (if map_of dc parentPath = None then AList.update parentPath [] dc else dc)
      in case map_of dc1 parentPath of
           None \<Rightarrow> dc1
         | Some dependencies \<Rightarrow> AList.update parentPath (setAdd path dependencies) dc1)"

definition getCachedPath :: "string \<Rightarrow> bool \<Rightarrow> store \<Rightarrow> pathInfo \<times> store" where
  "getCachedPath path flush s =
     (case (if flush then None else map_of (pathCache s) path) of
        Some pathInfo \<Rightarrow> (pathInfo, s)
      | None \<Rightarrow>
          (let pathInfo = parsePath path
           in (pathInfo,
               s\<lparr> pathCache := AList.update path pathInfo (pathCache s),
                  dependencyCache :=
                    foldl (addDependency path) (dependencyCache s) (parentPaths pathInfo) \<rparr>)))"

text \<open>
  The loop of \<open>getCachedProperty\<close> over \<open>parentKeys\<close>. The \<open>break\<close> of the first branch
  leaves the loop before the other two containers are advanced.
\<close>

fun walkParents :: "string list \<Rightarrow> propInfo \<Rightarrow> error + propInfo" where
  "walkParents [] p = Inr p"
| "walkParents (parentKey # rest) p =
     (if parentProp p \<noteq> JUndefined \<and> parentProp p \<noteq> JNull then
        (case getProp (parentProp p) parentKey of
           Inl e \<Rightarrow> Inl e
         | Inr pp \<Rightarrow>
            (case (if fallbackProp p \<noteq> JUndefined \<and> fallbackProp p \<noteq> JNull
                   then getProp (fallbackProp p) parentKey else Inr (fallbackProp p)) of
               Inl e \<Rightarrow> Inl e
             | Inr fp \<Rightarrow>
                (case (if initialProp p \<noteq> JUndefined \<and> initialProp p \<noteq> JNull
                       then getProp (initialProp p) parentKey else Inr (initialProp p)) of
                   Inl e \<Rightarrow> Inl e
                 | Inr ip \<Rightarrow>
                     walkParents rest
                       \<lparr> parentProp = pp, fallbackProp = fp, initialProp = ip \<rparr>)))
      else Inr (p\<lparr>parentProp := JUndefined\<rparr>))"

definition getCachedProperty :: "string \<Rightarrow> bool \<Rightarrow> store \<Rightarrow> (error + propInfo) \<times> store" where
  "getCachedProperty path flush s =
     (case (if flush then None else map_of (propertyCache s) path) of
        Some propInfo \<Rightarrow> (Inr propInfo, s)
      | None \<Rightarrow>
          (let (pathInfo, s1) = getCachedPath path False s
           in (walkParents (parentKeys pathInfo)
                 \<lparr> parentProp = data s1, fallbackProp = fallbackData s1,
                   initialProp = initialData s1 \<rparr>,
               s1)))"

subsection \<open>Notification\<close>

definition notifyNestedSubscribers :: "string \<Rightarrow> store \<Rightarrow> store" where
  "notifyNestedSubscribers path s =
     (let s1 = notifySubscribers path s;
          (pathInfo, s2) = getCachedPath path False s1
      in foldl (\<lambda>st parentPath. notifySubscribers parentPath st) s2 (parentPaths pathInfo))"

definition notifyDependencies :: "string \<Rightarrow> store \<Rightarrow> store" where
  "notifyDependencies path s =
     (case map_of (dependencyCache s) path of
        None \<Rightarrow> s
      | Some dependencySet \<Rightarrow>
          foldl (\<lambda>st dependency. notifySubscribers dependency st) s dependencySet)"

text \<open>
  The block \<open>if (notify) { notifyNestedSubscribers(path); notifyDependencies(path) }\<close>
  that ends \<open>set\<close>, \<open>update\<close> and \<open>remove\<close>.
\<close>

definition notifyMutation :: "bool \<Rightarrow> string \<Rightarrow> store \<Rightarrow> store" where
  "notifyMutation notify path s =
     (if notify then notifyDependencies path (notifyNestedSubscribers path s) else s)"

subsection \<open>Getters and setters\<close>

text \<open>\<open>c && c[k]\<close>\<close>

definition andProp :: "jsval \<Rightarrow> string \<Rightarrow> error + jsval" where
  "andProp c k = (if truthy c then getProp c k else Inr c)"

definition get :: "string \<Rightarrow> store \<Rightarrow> (error + jsval) \<times> store" where
  "get path s =
     (let (pathInfo, s1) = getCachedPath path False s
      in case getCachedProperty path False s1 of
           (Inl e, s2) \<Rightarrow> (Inl e, s2)
         | (Inr propInfo, s2) \<Rightarrow>
            (case andProp (parentProp propInfo) (currentKey pathInfo) of
               Inl e \<Rightarrow> (Inl e, s2)
             | Inr originalValue \<Rightarrow>
                 if originalValue \<noteq> JUndefined then (Inr originalValue, s2)
                 else (andProp (fallbackProp propInfo) (currentKey pathInfo), s2)))"

text \<open>
  The loop of \<open>set\<close> that runs when no parent container was found. It walks
  \<open>parentPaths\<close>, the prefix paths, and uses each as a key of the current container.
  A TypeError can only arise before the first container is created (a created container
  is an empty object, and so is every container after it), so a call that raises has
  not changed the tree.
\<close>

fun materialize :: "jsval \<Rightarrow> string list \<Rightarrow> string \<Rightarrow> jsval \<Rightarrow> error + jsval" where
  "materialize parent [] currentKey0 v = setProp parent currentKey0 v"
| "materialize parent (parentKey # rest) currentKey0 v =
     (case getProp parent parentKey of
        Inl e \<Rightarrow> Inl e
      | Inr child \<Rightarrow>
         (case (if child = JUndefined then setProp parent parentKey (JObj [])
                else Inr parent) of
            Inl e \<Rightarrow> Inl e
          | Inr parent1 \<Rightarrow>
             (case getProp parent1 parentKey of
                Inl e \<Rightarrow> Inl e
              | Inr next \<Rightarrow>
                 (case materialize next rest currentKey0 v of
                    Inl e \<Rightarrow> Inl e
                  | Inr next1 \<Rightarrow> Inr (putChild parent1 parentKey next1)))))"

definition set_op :: "string \<Rightarrow> jsval \<Rightarrow> bool \<Rightarrow> store \<Rightarrow> (error + unit) \<times> store" where
  "set_op path v notify s =
     (let (pathInfo, s1) = getCachedPath path False s
      in case getCachedProperty path False s1 of
           (Inl e, s2) \<Rightarrow> (Inl e, s2)
         | (Inr propInfo, s2) \<Rightarrow>
            (case (if \<not> truthy (parentProp propInfo)
                   then materialize (data s2) (parentPaths pathInfo) (currentKey pathInfo) v
                   else (case setProp (parentProp propInfo) (currentKey pathInfo) v of
                           Inl e \<Rightarrow> Inl e
                         | Inr c \<Rightarrow> Inr (putAt (data s2) (parentKeys pathInfo) c))) of
               Inl e \<Rightarrow> (Inl e, s2)
             | Inr d \<Rightarrow> (Inr (), notifyMutation notify path (s2\<lparr>data := d\<rparr>))))"

text \<open>The second argument of \<open>update\<close>: a value, or a function of the previous value.\<close>

datatype updater = Direct jsval | Transform "jsval \<Rightarrow> jsval"

definition update :: "string \<Rightarrow> updater \<Rightarrow> bool \<Rightarrow> store \<Rightarrow> (error + unit) \<times> store" where
  "update path u notify s =
     (let (pathInfo, s1) = getCachedPath path False s
      in case getCachedProperty path False s1 of
           (Inl e, s2) \<Rightarrow> (Inl e, s2)
         | (Inr propInfo, s2) \<Rightarrow>
            if \<not> truthy (parentProp propInfo) then (Inr (), s2)
            else
              (case (case u of
                       Transform f \<Rightarrow>
                         (case getProp (parentProp propInfo) (currentKey pathInfo) of
                            Inl e \<Rightarrow> Inl e
                          | Inr prev \<Rightarrow>
                              setProp (parentProp propInfo) (currentKey pathInfo) (f prev))
                     | Direct v \<Rightarrow> setProp (parentProp propInfo) (currentKey pathInfo) v) of
                 Inl e \<Rightarrow> (Inl e, s2)
               | Inr c \<Rightarrow>
                   (Inr (),
                    notifyMutation notify path
                      (s2\<lparr>data := putAt (data s2) (parentKeys pathInfo) c\<rparr>))))"

definition remove :: "string \<Rightarrow> bool \<Rightarrow> store \<Rightarrow> (error + unit) \<times> store" where
  "remove path notify s =
     (let (pathInfo, s1) = getCachedPath path False s
      in case getCachedProperty path False s1 of
           (Inl e, s2) \<Rightarrow> (Inl e, s2)
         | (Inr propInfo, s2) \<Rightarrow>
            if \<not> truthy (parentProp propInfo) then (Inr (), s2)
            else
              (case deleteProp (parentProp propInfo) (currentKey pathInfo) of
                 Inl e \<Rightarrow> (Inl e, s2)
               | Inr c \<Rightarrow>
                   (Inr (),
                    notifyMutation notify path
                      (s2\<lparr>data := putAt (data s2) (parentKeys pathInfo) c\<rparr>))))"

definition reset :: "bool \<Rightarrow> store \<Rightarrow> store" where
  "reset notify s =
     (let s1 = s\<lparr>data := deepClone (initialData s)\<rparr>
      in if notify
         then foldl (\<lambda>st path. notifySubscribers path st) s1 (map fst (subscribers s1))
         else s1)"

subsection \<open>Sequences of calls\<close>

text \<open>
  The reactive helper \<open>use\<close> hands \<open>addSubscriber\<close> and \<open>removeSubscriber\<close> to the
  rendering library; they appear here as the calls \<open>Subscribe\<close> and \<open>Unsubscribe\<close>.
  A call that raises leaves the store as it was at that point, and the caller goes on
  with the next call.
\<close>

datatype op =
    Get string
  | Set string jsval bool
  | Update string updater bool
  | Remove string bool
  | Reset bool
  | Subscribe string callback
  | Unsubscribe string callback

fun step :: "op \<Rightarrow> store \<Rightarrow> store" where
  "step (Get path) s = snd (get path s)"
| "step (Set path v notify) s = snd (set_op path v notify s)"
| "step (Update path u notify) s = snd (update path u notify s)"
| "step (Remove path notify) s = snd (remove path notify s)"
| "step (Reset notify) s = reset notify s"
| "step (Subscribe path callback) s = addSubscriber path callback s"
| "step (Unsubscribe path callback) s = removeSubscriber path callback s"

definition run :: "op list \<Rightarrow> store \<Rightarrow> store" where
  "run ops s = foldl (\<lambda>st c. step c st) s ops"

text \<open>The events by which the log of \<open>s'\<close> extends the log of \<open>s\<close>.\<close>

definition emitted :: "store \<Rightarrow> store \<Rightarrow> event list" where
  "emitted s s' = drop (length (calls s)) (calls s')"

section \<open>The keyed-collection store\<close>

text \<open>
  The collection is a \<open>Map\<close> from keys to entries, kept as the list of its entries in
  insertion order: \<open>Map.set\<close> keeps the place of an existing key and puts a new key
  last, \<open>Map.delete\<close> removes the key, \<open>Map.get\<close> yields \<open>undefined\<close> for a key that is
  not there.
\<close>

record pathInfo_map =
  mapKey :: string
  parentKeys_map :: "string list"
  parentPaths_map :: "string list"
  currentKey_map :: string

record store_map =
  data_map :: "(string \<times> jsval) list"
  initialData_map :: "(string \<times> jsval) list"
  fallbackData_map :: jsval
  pathCache_map :: "(string \<times> pathInfo_map) list"
  propertyCache_map :: "(string \<times> propInfo) list"
  dependencyCache_map :: "(string \<times> string list) list"
  subscribers_map :: "(string \<times> callback list) list"
  keysSubscribers :: "callback list"
  sizeSubscribers :: "callback list"
  cachedKeys :: "string list"
  calls_map :: "event list"

definition mapGet :: "(string \<times> jsval) list \<Rightarrow> string \<Rightarrow> jsval" where
  "mapGet m k = (case map_of m k of None \<Rightarrow> JUndefined | Some v \<Rightarrow> v)"

definition mapHas :: "(string \<times> jsval) list \<Rightarrow> string \<Rightarrow> bool" where
  "mapHas m k = (map_of m k \<noteq> None)"

text \<open>
  \<open>deepClone\<close> of a \<open>Map\<close>, and of the optional \<open>initialData\<close> followed by
  \<open>|| new Map()\<close>. The file of this store imports \<open>deepClone\<close> from a utilities module;
  the exported \<open>deepClone\<close> of the single-object file, which has the \<open>Map\<close> case, is
  taken to be that function. \<open>new Map(entries)\<close> sets the entries in order, as
  \<open>Object.fromEntries\<close> does.
\<close>

definition deepCloneMap :: "(string \<times> jsval) list \<Rightarrow> (string \<times> jsval) list" where
  "deepCloneMap m = fromEntries (map (\<lambda>e. (fst e, deepClone (snd e))) m)"

definition cloneInitialMap :: "(string \<times> jsval) list option \<Rightarrow> (string \<times> jsval) list" where
  "cloneInitialMap initialData0 =
     (case initialData0 of None \<Rightarrow> [] | Some m \<Rightarrow> deepCloneMap m)"

definition notifySubscribers_map :: "string \<Rightarrow> store_map \<Rightarrow> store_map" where
  "notifySubscribers_map path s =
     (case map_of (subscribers_map s) path of
        None \<Rightarrow> s
      | Some cbs \<Rightarrow> s\<lparr>calls_map := calls_map s @ map (PathCall path) cbs\<rparr>)"

definition notifyCountSubscribers :: "store_map \<Rightarrow> store_map" where
  "notifyCountSubscribers s =
     s\<lparr> cachedKeys := map fst (data_map s),
        calls_map := calls_map s @ map KeysCall (keysSubscribers s)
                                 @ map SizeCall (sizeSubscribers s) \<rparr>"

definition create_map :: "(string \<times> jsval) list option \<Rightarrow> jsval \<Rightarrow> store_map" where
  "create_map initialData0 fallbackData0 =
     notifyCountSubscribers
       \<lparr> data_map = cloneInitialMap initialData0,
         initialData_map = cloneInitialMap initialData0,
         fallbackData_map = deepClone (orElse fallbackData0 (JObj [])),
         pathCache_map = [],
         propertyCache_map = [],
         dependencyCache_map = [],
         subscribers_map = [],
         keysSubscribers = [],
         sizeSubscribers = [],
         cachedKeys = [],
         calls_map = [] \<rparr>"

text \<open>\<open>getFullPath\<close>; an omitted \<open>path\<close> is the empty string.\<close>

definition getFullPath :: "string \<Rightarrow> string \<Rightarrow> string" where
  "getFullPath key path = key @ (if path \<noteq> [] then ''.'' @ path else [])"

definition parsePath_map :: "string \<Rightarrow> pathInfo_map" where
  "parsePath_map path =
     (let keys = split_dot path;
          allPaths = allPathsOf keys
      in \<lparr> mapKey = hd keys,
           parentKeys_map = drop 1 (butlast keys),
           parentPaths_map = (if length allPaths > 1 then butlast allPaths else []),
           currentKey_map = (if length keys = 1 then [] else last keys) \<rparr>)"

definition getCachedPath_map :: "string \<Rightarrow> bool \<Rightarrow> store_map \<Rightarrow> pathInfo_map \<times> store_map" where
  "getCachedPath_map path flush s =
     (case (if flush then None else map_of (pathCache_map s) path) of
        Some pathInfo \<Rightarrow> (pathInfo, s)
      | None \<Rightarrow>
          (let pathInfo = parsePath_map path
           in (pathInfo,
               s\<lparr> pathCache_map := AList.update path pathInfo (pathCache_map s),
                  dependencyCache_map :=
                    foldl (addDependency path) (dependencyCache_map s)
                      (parentPaths_map pathInfo) \<rparr>)))"

definition getCachedProperty_map ::
  "string \<Rightarrow> bool \<Rightarrow> store_map \<Rightarrow> (error + propInfo) \<times> store_map" where
  "getCachedProperty_map path flush s =
     (case (if flush then None else map_of (propertyCache_map s) path) of
        Some propInfo \<Rightarrow> (Inr propInfo, s)
      | None \<Rightarrow>
          (let (pathInfo, s1) = getCachedPath_map path False s
           in (walkParents (parentKeys_map pathInfo)
                 \<lparr> parentProp = mapGet (data_map s1) (mapKey pathInfo),
                   fallbackProp = fallbackData_map s1,
                   initialProp = mapGet (initialData_map s1) (mapKey pathInfo) \<rparr>,
               s1)))"

definition notifyNestedSubscribers_map :: "string \<Rightarrow> store_map \<Rightarrow> store_map" where
  "notifyNestedSubscribers_map path s =
     (let (pathInfo, s1) = getCachedPath_map path False s;
          s2 = (if mapKey pathInfo = path then notifySubscribers_map (mapKey pathInfo) s1
                else notifySubscribers_map path s1)
      in foldl (\<lambda>st parentPath. notifySubscribers_map parentPath st) s2
           (parentPaths_map pathInfo))"

definition notifyDependencies_map :: "string \<Rightarrow> store_map \<Rightarrow> store_map" where
  "notifyDependencies_map path s =
     (case map_of (dependencyCache_map s) path of
        None \<Rightarrow> s
      | Some dependencySet \<Rightarrow>
          foldl (\<lambda>st dependency. notifySubscribers_map dependency st) s dependencySet)"

text \<open>The same block of \<open>set\<close>, \<open>update\<close> and \<open>remove\<close> in this store.\<close>

definition notifyMutation_map :: "bool \<Rightarrow> string \<Rightarrow> store_map \<Rightarrow> store_map" where
  "notifyMutation_map notify path s =
     (if notify then notifyDependencies_map path (notifyNestedSubscribers_map path s) else s)"

text \<open>\<open>this.subscribers.forEach((_, path) => this.notifySubscribers(path))\<close>\<close>

definition notifyAllPaths_map :: "store_map \<Rightarrow> store_map" where
  "notifyAllPaths_map s =
     foldl (\<lambda>st path. notifySubscribers_map path st) s (map fst (subscribers_map s))"

definition getKeys :: "store_map \<Rightarrow> string list" where
  "getKeys s = map fst (data_map s)"

definition getSize :: "store_map \<Rightarrow> nat" where
  "getSize s = length (data_map s)"

definition reset_map :: "bool \<Rightarrow> store_map \<Rightarrow> store_map" where
  "reset_map notify s =
     (let s1 = s\<lparr>data_map := deepCloneMap (initialData_map s)\<rparr>
      in if notify then notifyCountSubscribers (notifyAllPaths_map s1) else s1)"

definition clear_map :: "bool \<Rightarrow> store_map \<Rightarrow> store_map" where
  "clear_map notify s =
     (let s1 = s\<lparr>data_map := []\<rparr>
      in if notify then notifyCountSubscribers (notifyAllPaths_map s1) else s1)"

definition get_map :: "string \<Rightarrow> string \<Rightarrow> store_map \<Rightarrow> (error + jsval) \<times> store_map" where
  "get_map mapKey0 path s =
     (let fullPath = getFullPath mapKey0 path;
          (pathInfo, s1) = getCachedPath_map fullPath False s
      in case getCachedProperty_map fullPath False s1 of
           (Inl e, s2) \<Rightarrow> (Inl e, s2)
         | (Inr propInfo, s2) \<Rightarrow>
            (case (if currentKey_map pathInfo \<noteq> []
                   then andProp (parentProp propInfo) (currentKey_map pathInfo)
                   else Inr (parentProp propInfo)) of
               Inl e \<Rightarrow> (Inl e, s2)
             | Inr originalValue \<Rightarrow>
                 if originalValue \<noteq> JUndefined then (Inr originalValue, s2)
                 else (andProp (fallbackProp propInfo) (currentKey_map pathInfo), s2)))"

definition set_map :: "string \<Rightarrow> jsval \<Rightarrow> bool \<Rightarrow> store_map \<Rightarrow> store_map" where
  "set_map mapKey0 v notify s =
     (let hasKey = mapHas (data_map s) mapKey0;
          fullPath = getFullPath mapKey0 [];
          s1 = s\<lparr>data_map := AList.update mapKey0 v (data_map s)\<rparr>;
          s2 = notifyMutation_map notify fullPath s1
      in if \<not> hasKey then notifyCountSubscribers s2 else s2)"

definition update_map ::
  "string \<Rightarrow> string \<Rightarrow> updater \<Rightarrow> bool \<Rightarrow> store_map \<Rightarrow> (error + unit) \<times> store_map" where
  "update_map mapKey0 path u notify s =
     (if \<not> mapHas (data_map s) mapKey0 then (Inr (), s)
      else
        (let fullPath = getFullPath mapKey0 path;
             (pathInfo, s1) = getCachedPath_map fullPath False s
         in case getCachedProperty_map fullPath False s1 of
              (Inl e, s2) \<Rightarrow> (Inl e, s2)
            | (Inr propInfo, s2) \<Rightarrow>
               if \<not> truthy (parentProp propInfo) then (Inr (), s2)
               else
                 (case (case u of
                          Transform f \<Rightarrow>
                            (case getProp (parentProp propInfo) (currentKey_map pathInfo) of
                               Inl e \<Rightarrow> Inl e
                             | Inr prev \<Rightarrow>
                                 setProp (parentProp propInfo) (currentKey_map pathInfo)
                                   (f prev))
                        | Direct v \<Rightarrow>
                            setProp (parentProp propInfo) (currentKey_map pathInfo) v) of
                    Inl e \<Rightarrow> (Inl e, s2)
                  | Inr c \<Rightarrow>
                      (Inr (),
                       notifyMutation_map notify fullPath
                         (s2\<lparr>data_map :=
                               AList.update (mapKey pathInfo)
                                 (putAt (mapGet (data_map s2) (mapKey pathInfo))
                                    (parentKeys_map pathInfo) c)
                                 (data_map s2)\<rparr>)))))"

definition remove_map :: "string \<Rightarrow> bool \<Rightarrow> store_map \<Rightarrow> store_map" where
  "remove_map mapKey0 notify s =
     (if \<not> mapHas (data_map s) mapKey0 then s
      else
        (let s1 = s\<lparr>data_map := AList.delete mapKey0 (data_map s)\<rparr>
         in if notify
            then notifyCountSubscribers (notifyMutation_map True mapKey0 s1)
            else s1))"

text \<open>The subscribe and unsubscribe functions that \<open>use\<close>, \<open>useKeys\<close> and \<open>useSize\<close> build.\<close>

definition subscribe_map :: "string \<Rightarrow> string \<Rightarrow> callback \<Rightarrow> store_map \<Rightarrow> store_map" where
  "subscribe_map mapKey0 path callback s =
     (let fullPath = getFullPath mapKey0 path;
          subs = (if map_of (subscribers_map s) fullPath = None
                  then AList.update fullPath [] (subscribers_map s) else subscribers_map s)
      in case map_of subs fullPath of
           None \<Rightarrow> s\<lparr>subscribers_map := subs\<rparr>
         | Some cbs \<Rightarrow> s\<lparr>subscribers_map := AList.update fullPath (setAdd callback cbs) subs\<rparr>)"

definition unsubscribe_map :: "string \<Rightarrow> string \<Rightarrow> callback \<Rightarrow> store_map \<Rightarrow> store_map" where
  "unsubscribe_map mapKey0 path callback s =
     (let fullPath = getFullPath mapKey0 path
      in case map_of (subscribers_map s) fullPath of
           None \<Rightarrow> s
         | Some cbs \<Rightarrow>
             (let cbs' = removeAll callback cbs
              in if length cbs' = 0
                 then s\<lparr>subscribers_map := AList.delete fullPath (subscribers_map s)\<rparr>
                 else s\<lparr>subscribers_map := AList.update fullPath cbs' (subscribers_map s)\<rparr>))"

datatype op_map =
    KeyGet string string
  | KeySet string jsval bool
  | KeyUpdate string string updater bool
  | KeyRemove string bool
  | ResetMap bool
  | ClearMap bool
  | KeyUse string string callback
  | KeyUnuse string string callback
  | UseKeys callback
  | UnuseKeys callback
  | UseSize callback
  | UnuseSize callback

fun step_map :: "op_map \<Rightarrow> store_map \<Rightarrow> store_map" where
  "step_map (KeyGet k path) s = snd (get_map k path s)"
| "step_map (KeySet k v notify) s = set_map k v notify s"
| "step_map (KeyUpdate k path u notify) s = snd (update_map k path u notify s)"
| "step_map (KeyRemove k notify) s = remove_map k notify s"
| "step_map (ResetMap notify) s = reset_map notify s"
| "step_map (ClearMap notify) s = clear_map notify s"
| "step_map (KeyUse k path callback) s = subscribe_map k path callback s"
| "step_map (KeyUnuse k path callback) s = unsubscribe_map k path callback s"
| "step_map (UseKeys callback) s = s\<lparr>keysSubscribers := setAdd callback (keysSubscribers s)\<rparr>"
| "step_map (UnuseKeys callback) s = s\<lparr>keysSubscribers := removeAll callback (keysSubscribers s)\<rparr>"
| "step_map (UseSize callback) s = s\<lparr>sizeSubscribers := setAdd callback (sizeSubscribers s)\<rparr>"
| "step_map (UnuseSize callback) s = s\<lparr>sizeSubscribers := removeAll callback (sizeSubscribers s)\<rparr>"

definition run_map :: "op_map list \<Rightarrow> store_map \<Rightarrow> store_map" where
  "run_map ops s = foldl (\<lambda>st c. step_map c st) s ops"

definition emitted_map :: "store_map \<Rightarrow> store_map \<Rightarrow> event list" where
  "emitted_map s s' = drop (length (calls_map s)) (calls_map s')"

section \<open>The single-object store over a heap of objects\<close>

text \<open>
  Whether a later write can reach the initial snapshot depends on which containers are
  shared, and a tree of values cannot say that. In this second model of the single-object
  store an object is a cell of a heap, a container is the address of its cell, and a
  write changes the cell in place, so that every holder of the address sees it. \<open>get\<close>
  returns the container itself, the caller may keep it, store it again with \<open>set\<close> and
  write to it; \<open>deepClone\<close> allocates new cells. The path caches, the registry and the
  log are as in the first model.
\<close>

type_synonym addr = nat

datatype hval = HUndefined | HNull | HBool bool | HNum int | HStr string | HRef addr

type_synonym hobj = "(string \<times> hval) list"

type_synonym heap = "hobj list"

text \<open>The object at an address; a new object gets the address \<open>length h\<close>.\<close>

definition cell :: "heap \<Rightarrow> addr \<Rightarrow> hobj" where
  "cell h a = (if a < length h then h ! a else [])"

fun truthyH :: "hval \<Rightarrow> bool" where
  "truthyH HUndefined = False"
| "truthyH HNull = False"
| "truthyH (HBool b) = b"
| "truthyH (HNum n) = (n \<noteq> 0)"
| "truthyH (HStr s) = (s \<noteq> [])"
| "truthyH (HRef a) = True"

fun getPropH :: "heap \<Rightarrow> hval \<Rightarrow> string \<Rightarrow> error + hval" where
  "getPropH h HUndefined k = Inl TypeError"
| "getPropH h HNull k = Inl TypeError"
| "getPropH h (HRef a) k =
     Inr (case map_of (cell h a) k of None \<Rightarrow> HUndefined | Some v \<Rightarrow> v)"
| "getPropH h v k = Inr HUndefined"

fun setPropH :: "heap \<Rightarrow> hval \<Rightarrow> string \<Rightarrow> hval \<Rightarrow> error + heap" where
  "setPropH h (HRef a) k v = Inr (h[a := AList.update k v (cell h a)])"
| "setPropH h p k v = Inl TypeError"

fun deletePropH :: "heap \<Rightarrow> hval \<Rightarrow> string \<Rightarrow> error + heap" where
  "deletePropH h HUndefined k = Inl TypeError"
| "deletePropH h HNull k = Inl TypeError"
| "deletePropH h (HRef a) k = Inr (h[a := AList.delete k (cell h a)])"
| "deletePropH h v k = Inr h"

subsection \<open>deepClone on the heap\<close>

definition fromEntriesH :: "hobj \<Rightarrow> hobj" where
  "fromEntriesH es = foldl (\<lambda>acc e. AList.update (fst e) (snd e) acc) [] es"

text \<open>
  \<open>deepClone\<close> follows the references of its argument, and does not return on a cyclic
  structure: the result is an option, \<open>None\<close> for a call that does not return. The
  function has two kinds of argument: \<open>Inl v\<close> is \<open>deepClone(v)\<close>, and \<open>Inr es\<close> is the
  \<open>map\<close> over the entries \<open>es\<close> of an object, which clones the value of each entry in
  turn. The clone of an object is a new cell, allocated after the clones of its values.
\<close>

partial_function (option) cloneH :: "heap \<Rightarrow> hval + hobj \<Rightarrow> ((hval + hobj) \<times> heap) option" where
  "cloneH h x =
     (case x of
        Inl v \<Rightarrow>
          (case v of
             HRef a \<Rightarrow>
               Option.bind (cloneH h (Inr (cell h a)))
                 (\<lambda>r. case fst r of
                        Inr es \<Rightarrow> Some (Inl (HRef (length (snd r))), snd r @ [fromEntriesH es])
                      | Inl u \<Rightarrow> None)
           | _ \<Rightarrow> Some (Inl v, h))
      | Inr [] \<Rightarrow> Some (Inr [], h)
      | Inr (e # rest) \<Rightarrow>
          Option.bind (cloneH h (Inl (snd e)))
            (\<lambda>r. case fst r of
                   Inl v' \<Rightarrow>
                     Option.bind (cloneH (snd r) (Inr rest))
                       (\<lambda>r2. case fst r2 of
                               Inr es \<Rightarrow> Some (Inr ((fst e, v') # es), snd r2)
                             | Inl u \<Rightarrow> None)
                 | Inr u \<Rightarrow> None))"

declare cloneH.simps [code]

definition deepCloneH :: "heap \<Rightarrow> hval \<Rightarrow> (hval \<times> heap) option" where
  "deepCloneH h v =
     Option.bind (cloneH h (Inl v))
       (\<lambda>r. case fst r of Inl v' \<Rightarrow> Some (v', snd r) | Inr u \<Rightarrow> None)"

subsection \<open>The store\<close>

record propInfoH =
  parentPropH :: hval
  fallbackPropH :: hval
  initialPropH :: hval

record storeH =
  heap :: heap
  dataH :: hval
  initialDataH :: hval
  fallbackDataH :: hval
  pathCacheH :: "(string \<times> pathInfo) list"
  propertyCacheH :: "(string \<times> propInfoH) list"
  dependencyCacheH :: "(string \<times> string list) list"
  subscribersH :: "(string \<times> callback list) list"
  callsH :: "event list"

text \<open>\<open>x || {}\<close>: the object literal is a new object each time it is evaluated.\<close>

definition orEmptyH :: "heap \<Rightarrow> hval \<Rightarrow> hval \<times> heap" where
  "orEmptyH h v = (if truthyH v then (v, h) else (HRef (length h), h @ [[]]))"

text \<open>The constructor, called with the caller's two objects (or \<open>undefined\<close>).\<close>

definition createH :: "heap \<Rightarrow> hval \<Rightarrow> hval \<Rightarrow> storeH option" where
  "createH h initialData0 fallbackData0 =
     Option.bind (deepCloneH (snd (orEmptyH h initialData0)) (fst (orEmptyH h initialData0)))
       (\<lambda>d. Option.bind
          (deepCloneH (snd (orEmptyH (snd d) initialData0))
             (fst (orEmptyH (snd d) initialData0)))
          (\<lambda>i. Option.bind
             (deepCloneH (snd (orEmptyH (snd i) fallbackData0))
                (fst (orEmptyH (snd i) fallbackData0)))
             (\<lambda>f. Some \<lparr> heap = snd f,
                          dataH = fst d,
                          initialDataH = fst i,
                          fallbackDataH = fst f,
                          pathCacheH = [],
                          propertyCacheH = [],
                          dependencyCacheH = [],
                          subscribersH = [],
                          callsH = [] \<rparr>)))"

definition addSubscriberH :: "string \<Rightarrow> callback \<Rightarrow> storeH \<Rightarrow> storeH" where
  "addSubscriberH path callback s =
     (let subs = (if map_of (subscribersH s) path = None
                  then AList.update path [] (subscribersH s) else subscribersH s)
      in case map_of subs path of
           None \<Rightarrow> s\<lparr>subscribersH := subs\<rparr>
         | Some cbs \<Rightarrow> s\<lparr>subscribersH := AList.update path (setAdd callback cbs) subs\<rparr>)"

definition removeSubscriberH :: "string \<Rightarrow> callback \<Rightarrow> storeH \<Rightarrow> storeH" where
  "removeSubscriberH path callback s =
     (case map_of (subscribersH s) path of
        None \<Rightarrow> s
      | Some cbs \<Rightarrow>
          (let cbs' = removeAll callback cbs
           in if length cbs' = 0
              then s\<lparr>subscribersH := AList.delete path (subscribersH s)\<rparr>
              else s\<lparr>subscribersH := AList.update path cbs' (subscribersH s)\<rparr>))"

definition notifySubscribersH :: "string \<Rightarrow> storeH \<Rightarrow> storeH" where
  "notifySubscribersH path s =
     (case map_of (subscribersH s) path of
        None \<Rightarrow> s
      | Some cbs \<Rightarrow> s\<lparr>callsH := callsH s @ map (PathCall path) cbs\<rparr>)"

definition getCachedPathH :: "string \<Rightarrow> bool \<Rightarrow> storeH \<Rightarrow> pathInfo \<times> storeH" where
  "getCachedPathH path flush s =
     (case (if flush then None else map_of (pathCacheH s) path) of
        Some pathInfo \<Rightarrow> (pathInfo, s)
      | None \<Rightarrow>
          (let pathInfo = parsePath path
           in (pathInfo,
               s\<lparr> pathCacheH := AList.update path pathInfo (pathCacheH s),
                  dependencyCacheH :=
                    foldl (addDependency path) (dependencyCacheH s) (parentPaths pathInfo) \<rparr>)))"

text \<open>The loop of \<open>getCachedProperty\<close>; the three containers are addresses.\<close>

fun walkParentsH :: "heap \<Rightarrow> string list \<Rightarrow> propInfoH \<Rightarrow> error + propInfoH" where
  "walkParentsH h [] p = Inr p"
| "walkParentsH h (parentKey # rest) p =
     (if parentPropH p \<noteq> HUndefined \<and> parentPropH p \<noteq> HNull then
        (case getPropH h (parentPropH p) parentKey of
           Inl e \<Rightarrow> Inl e
         | Inr pp \<Rightarrow>
            (case (if fallbackPropH p \<noteq> HUndefined \<and> fallbackPropH p \<noteq> HNull
                   then getPropH h (fallbackPropH p) parentKey else Inr (fallbackPropH p)) of
               Inl e \<Rightarrow> Inl e
             | Inr fp \<Rightarrow>
                (case (if initialPropH p \<noteq> HUndefined \<and> initialPropH p \<noteq> HNull
                       then getPropH h (initialPropH p) parentKey else Inr (initialPropH p)) of
                   Inl e \<Rightarrow> Inl e
                 | Inr ip \<Rightarrow>
                     walkParentsH h rest
                       \<lparr> parentPropH = pp, fallbackPropH = fp, initialPropH = ip \<rparr>)))
      else Inr (p\<lparr>parentPropH := HUndefined\<rparr>))"

definition getCachedPropertyH ::
  "string \<Rightarrow> bool \<Rightarrow> storeH \<Rightarrow> (error + propInfoH) \<times> storeH" where
  "getCachedPropertyH path flush s =
     (case (if flush then None else map_of (propertyCacheH s) path) of
        Some propInfo \<Rightarrow> (Inr propInfo, s)
      | None \<Rightarrow>
          (let (pathInfo, s1) = getCachedPathH path False s
           in (walkParentsH (heap s1) (parentKeys pathInfo)
                 \<lparr> parentPropH = dataH s1, fallbackPropH = fallbackDataH s1,
                   initialPropH = initialDataH s1 \<rparr>,
               s1)))"

definition notifyNestedSubscribersH :: "string \<Rightarrow> storeH \<Rightarrow> storeH" where
  "notifyNestedSubscribersH path s =
     (let s1 = notifySubscribersH path s;
          (pathInfo, s2) = getCachedPathH path False s1
      in foldl (\<lambda>st parentPath. notifySubscribersH parentPath st) s2 (parentPaths pathInfo))"

definition notifyDependenciesH :: "string \<Rightarrow> storeH \<Rightarrow> storeH" where
  "notifyDependenciesH path s =
     (case map_of (dependencyCacheH s) path of
        None \<Rightarrow> s
      | Some dependencySet \<Rightarrow>
          foldl (\<lambda>st dependency. notifySubscribersH dependency st) s dependencySet)"

definition notifyMutationH :: "bool \<Rightarrow> string \<Rightarrow> storeH \<Rightarrow> storeH" where
  "notifyMutationH notify path s =
     (if notify then notifyDependenciesH path (notifyNestedSubscribersH path s) else s)"

definition andPropH :: "heap \<Rightarrow> hval \<Rightarrow> string \<Rightarrow> error + hval" where
  "andPropH h c k = (if truthyH c then getPropH h c k else Inr c)"

text \<open>\<open>get\<close> returns what the container holds: a primitive, or the address of an object.\<close>

definition getH :: "string \<Rightarrow> storeH \<Rightarrow> (error + hval) \<times> storeH" where
  "getH path s =
     (let (pathInfo, s1) = getCachedPathH path False s
      in case getCachedPropertyH path False s1 of
           (Inl e, s2) \<Rightarrow> (Inl e, s2)
         | (Inr propInfo, s2) \<Rightarrow>
            (case andPropH (heap s2) (parentPropH propInfo) (currentKey pathInfo) of
               Inl e \<Rightarrow> (Inl e, s2)
             | Inr originalValue \<Rightarrow>
                 if originalValue \<noteq> HUndefined then (Inr originalValue, s2)
                 else (andPropH (heap s2) (fallbackPropH propInfo) (currentKey pathInfo), s2)))"

text \<open>
  The loop of \<open>set\<close> over \<open>parentPaths\<close>, and the final assignment. The result is the
  heap as the loop leaves it, also when it raises.
\<close>

fun materializeH ::
  "heap \<Rightarrow> hval \<Rightarrow> string list \<Rightarrow> string \<Rightarrow> hval \<Rightarrow> (error + unit) \<times> heap" where
  "materializeH h parent [] currentKey0 v =
     (case setPropH h parent currentKey0 v of
        Inl e \<Rightarrow> (Inl e, h)
      | Inr h1 \<Rightarrow> (Inr (), h1))"
| "materializeH h parent (parentKey # rest) currentKey0 v =
     (case getPropH h parent parentKey of
        Inl e \<Rightarrow> (Inl e, h)
      | Inr child \<Rightarrow>
         (case (if child = HUndefined
                then setPropH (h @ [[]]) parent parentKey (HRef (length h))
                else Inr h) of
            Inl e \<Rightarrow> (Inl e, h @ [[]])
          | Inr h1 \<Rightarrow>
             (case getPropH h1 parent parentKey of
                Inl e \<Rightarrow> (Inl e, h1)
              | Inr next \<Rightarrow> materializeH h1 next rest currentKey0 v)))"

definition setH :: "string \<Rightarrow> hval \<Rightarrow> bool \<Rightarrow> storeH \<Rightarrow> (error + unit) \<times> storeH" where
  "setH path v notify s =
     (let (pathInfo, s1) = getCachedPathH path False s
      in case getCachedPropertyH path False s1 of
           (Inl e, s2) \<Rightarrow> (Inl e, s2)
         | (Inr propInfo, s2) \<Rightarrow>
            (case (if \<not> truthyH (parentPropH propInfo)
                   then materializeH (heap s2) (dataH s2) (parentPaths pathInfo)
                          (currentKey pathInfo) v
                   else (case setPropH (heap s2) (parentPropH propInfo) (currentKey pathInfo) v of
                           Inl e \<Rightarrow> (Inl e, heap s2)
                         | Inr h1 \<Rightarrow> (Inr (), h1))) of
               (Inl e, h1) \<Rightarrow> (Inl e, s2\<lparr>heap := h1\<rparr>)
             | (Inr u, h1) \<Rightarrow> (Inr (), notifyMutationH notify path (s2\<lparr>heap := h1\<rparr>))))"

text \<open>
  The second argument of \<open>update\<close>: a value, or a function of the previous value, which
  may allocate the object it returns.
\<close>

datatype updaterH = DirectH hval | TransformH "hval \<Rightarrow> heap \<Rightarrow> hval \<times> heap"

definition updateH :: "string \<Rightarrow> updaterH \<Rightarrow> bool \<Rightarrow> storeH \<Rightarrow> (error + unit) \<times> storeH" where
  "updateH path u notify s =
     (let (pathInfo, s1) = getCachedPathH path False s
      in case getCachedPropertyH path False s1 of
           (Inl e, s2) \<Rightarrow> (Inl e, s2)
         | (Inr propInfo, s2) \<Rightarrow>
            if \<not> truthyH (parentPropH propInfo) then (Inr (), s2)
            else
              (case (case u of
                       TransformH g \<Rightarrow>
                         (case getPropH (heap s2) (parentPropH propInfo) (currentKey pathInfo) of
                            Inl e \<Rightarrow> (Inl e, heap s2)
                          | Inr prev \<Rightarrow>
                             (case setPropH (snd (g prev (heap s2))) (parentPropH propInfo)
                                     (currentKey pathInfo) (fst (g prev (heap s2))) of
                                Inl e \<Rightarrow> (Inl e, snd (g prev (heap s2)))
                              | Inr h1 \<Rightarrow> (Inr (), h1)))
                     | DirectH v \<Rightarrow>
                         (case setPropH (heap s2) (parentPropH propInfo) (currentKey pathInfo) v of
                            Inl e \<Rightarrow> (Inl e, heap s2)
                          | Inr h1 \<Rightarrow> (Inr (), h1))) of
                 (Inl e, h1) \<Rightarrow> (Inl e, s2\<lparr>heap := h1\<rparr>)
               | (Inr u, h1) \<Rightarrow> (Inr (), notifyMutationH notify path (s2\<lparr>heap := h1\<rparr>))))"

definition removeH :: "string \<Rightarrow> bool \<Rightarrow> storeH \<Rightarrow> (error + unit) \<times> storeH" where
  "removeH path notify s =
     (let (pathInfo, s1) = getCachedPathH path False s
      in case getCachedPropertyH path False s1 of
           (Inl e, s2) \<Rightarrow> (Inl e, s2)
         | (Inr propInfo, s2) \<Rightarrow>
            if \<not> truthyH (parentPropH propInfo) then (Inr (), s2)
            else
              (case deletePropH (heap s2) (parentPropH propInfo) (currentKey pathInfo) of
                 Inl e \<Rightarrow> (Inl e, s2)
               | Inr h1 \<Rightarrow> (Inr (), notifyMutationH notify path (s2\<lparr>heap := h1\<rparr>))))"

text \<open>\<open>reset\<close> does not return when \<open>deepClone\<close> does not.\<close>

definition resetH :: "bool \<Rightarrow> storeH \<Rightarrow> storeH option" where
  "resetH notify s =
     Option.bind (deepCloneH (heap s) (initialDataH s))
       (\<lambda>c. let s1 = s\<lparr>heap := snd c, dataH := fst c\<rparr>
            in Some (if notify
                     then foldl (\<lambda>st path. notifySubscribersH path st) s1
                            (map fst (subscribersH s1))
                     else s1))"

subsection \<open>The caller\<close>

text \<open>
  The caller holds values: its own two objects given to the constructor, and whatever
  \<open>get\<close> and its own property reads have returned. An argument of a call is an object
  literal, which is allocated when the call is made, or a value the caller holds, or,
  inside an update function, the previous value. The caller has no other way to an
  address. Besides the calls of the store it may read and write the objects it holds.
\<close>

fun allocVal :: "heap \<Rightarrow> jsval \<Rightarrow> hval \<times> heap"
and allocEntries :: "heap \<Rightarrow> (string \<times> jsval) list \<Rightarrow> hobj \<times> heap" where
  "allocVal h JUndefined = (HUndefined, h)"
| "allocVal h JNull = (HNull, h)"
| "allocVal h (JBool b) = (HBool b, h)"
| "allocVal h (JNum n) = (HNum n, h)"
| "allocVal h (JStr s) = (HStr s, h)"
| "allocVal h (JObj kvs) =
     (let (es, h1) = allocEntries h kvs in (HRef (length h1), h1 @ [es]))"
| "allocEntries h [] = ([], h)"
| "allocEntries h (e # rest) =
     (let (v, h1) = allocVal h (snd e); (es, h2) = allocEntries h1 rest
      in ((fst e, v) # es, h2))"

datatype cexp = Lit jsval | Held nat | Prev

fun evalC :: "hval list \<Rightarrow> hval \<Rightarrow> cexp \<Rightarrow> heap \<Rightarrow> hval \<times> heap" where
  "evalC held prev (Lit t) h = allocVal h t"
| "evalC held prev (Held n) h = (if n < length held then held ! n else HUndefined, h)"
| "evalC held prev Prev h = (prev, h)"

datatype updaterC = DirectC cexp | TransformC "hval \<Rightarrow> cexp"

datatype opH =
    GetH string
  | SetH string cexp bool
  | UpdateH string updaterC bool
  | RemoveH string bool
  | ResetH bool
  | SubscribeH string callback
  | UnsubscribeH string callback
  | ReadH cexp string
  | WriteH cexp string cexp

record world =
  st :: storeH
  held :: "hval list"

fun stepH :: "opH \<Rightarrow> world \<Rightarrow> world option" where
  "stepH (GetH path) w =
     (case getH path (st w) of
        (Inl e, s) \<Rightarrow> Some (w\<lparr>st := s\<rparr>)
      | (Inr v, s) \<Rightarrow> Some (w\<lparr>st := s, held := held w @ [v]\<rparr>))"
| "stepH (SetH path c notify) w =
     (let (v, h1) = evalC (held w) HUndefined c (heap (st w))
      in Some (w\<lparr>st := snd (setH path v notify ((st w)\<lparr>heap := h1\<rparr>))\<rparr>))"
| "stepH (UpdateH path (DirectC c) notify) w =
     (let (v, h1) = evalC (held w) HUndefined c (heap (st w))
      in Some (w\<lparr>st := snd (updateH path (DirectH v) notify ((st w)\<lparr>heap := h1\<rparr>))\<rparr>))"
| "stepH (UpdateH path (TransformC f) notify) w =
     Some (w\<lparr>st := snd (updateH path (TransformH (\<lambda>prev. evalC (held w) prev (f prev)))
                           notify (st w))\<rparr>)"
| "stepH (RemoveH path notify) w = Some (w\<lparr>st := snd (removeH path notify (st w))\<rparr>)"
| "stepH (ResetH notify) w = map_option (\<lambda>s. w\<lparr>st := s\<rparr>) (resetH notify (st w))"
| "stepH (SubscribeH path callback) w = Some (w\<lparr>st := addSubscriberH path callback (st w)\<rparr>)"
| "stepH (UnsubscribeH path callback) w =
     Some (w\<lparr>st := removeSubscriberH path callback (st w)\<rparr>)"
| "stepH (ReadH c k) w =
     (let (t, h1) = evalC (held w) HUndefined c (heap (st w))
      in case getPropH h1 t k of
           Inl e \<Rightarrow> Some (w\<lparr>st := (st w)\<lparr>heap := h1\<rparr>\<rparr>)
         | Inr v \<Rightarrow> Some (w\<lparr>st := (st w)\<lparr>heap := h1\<rparr>, held := held w @ [v]\<rparr>))"
| "stepH (WriteH c k c') w =
     (let (t, h1) = evalC (held w) HUndefined c (heap (st w));
          (v, h2) = evalC (held w) HUndefined c' h1
      in case setPropH h2 t k v of
           Inl e \<Rightarrow> Some (w\<lparr>st := (st w)\<lparr>heap := h2\<rparr>\<rparr>)
         | Inr h3 \<Rightarrow> Some (w\<lparr>st := (st w)\<lparr>heap := h3\<rparr>\<rparr>))"

fun runH :: "opH list \<Rightarrow> world \<Rightarrow> world option" where
  "runH [] w = Some w"
| "runH (c # cs) w = Option.bind (stepH c w) (runH cs)"

text \<open>
  The caller writes its two objects as literals, constructs the store from them, and
  holds them.
\<close>

definition startH :: "jsval \<Rightarrow> jsval \<Rightarrow> world option" where
  "startH i f =
     (let (vi, h1) = allocVal [] i; (vf, h2) = allocVal h1 f
      in map_option (\<lambda>s. \<lparr>st = s, held = [vi, vf]\<rparr>) (createH h2 vi vf))"

text \<open>The tree of values that a value of the heap stands for, if it stands for one.\<close>

fun repr :: "heap \<Rightarrow> hval \<Rightarrow> jsval \<Rightarrow> bool" where
  "repr h v JUndefined = (v = HUndefined)"
| "repr h v JNull = (v = HNull)"
| "repr h v (JBool b) = (v = HBool b)"
| "repr h v (JNum n) = (v = HNum n)"
| "repr h v (JStr s) = (v = HStr s)"
| "repr h v (JObj kvs) =
     (case v of
        HRef a \<Rightarrow> a < length h
                  \<and> list_all2 (\<lambda>e e'. fst e = fst e' \<and> repr h (snd e) (snd e')) (h ! a) kvs
      | _ \<Rightarrow> False)"

definition emittedH :: "storeH \<Rightarrow> storeH \<Rightarrow> event list" where
  "emittedH s s' = drop (length (callsH s)) (callsH s')"

section \<open>Auxiliary notions for the proofs\<close>

text \<open>
  The events of notifying the given paths in order, against a registry; the dependency
  set of a path; and what the two path caches satisfy at any time: a cached parse is the
  parse of its path, and a cached path is registered under each of its parent paths.
\<close>

text \<open>
  For the heap: a value that is no address outside the set \<open>A\<close>; cells whose values are
  such; a set of addresses into which no cell outside it points; a set of addresses
  whose cells point into it only; and a heap that has the cells of \<open>A\<close> as another has.
\<close>

definition refsIn :: "addr set \<Rightarrow> hval \<Rightarrow> bool" where
  "refsIn A v = (case v of HRef a \<Rightarrow> a \<in> A | _ \<Rightarrow> True)"

definition cellsIn :: "addr set \<Rightarrow> hobj list \<Rightarrow> bool" where
  "cellsIn A cs = (\<forall>c\<in>set cs. \<forall>e\<in>set c. refsIn A (snd e))"

definition sealed :: "addr set \<Rightarrow> heap \<Rightarrow> bool" where
  "sealed A h =
     (A \<subseteq> {..<length h}
      \<and> (\<forall>a<length h. a \<notin> A \<longrightarrow> (\<forall>e\<in>set (h ! a). refsIn (- A) (snd e))))"

definition closedIn :: "addr set \<Rightarrow> heap \<Rightarrow> bool" where
  "closedIn A h = (\<forall>a\<in>A. a < length h \<and> (\<forall>e\<in>set (h ! a). refsIn A (snd e)))"

definition keeps :: "addr set \<Rightarrow> heap \<Rightarrow> heap \<Rightarrow> bool" where
  "keeps A h h' = (length h \<le> length h' \<and> (\<forall>a\<in>A. h' ! a = h ! a))"

definition registered :: "(string \<times> callback list) list \<Rightarrow> string \<Rightarrow> callback list" where
  "registered subs path = (case map_of subs path of None \<Rightarrow> [] | Some cbs \<Rightarrow> cbs)"

definition callsFor :: "(string \<times> callback list) list \<Rightarrow> string list \<Rightarrow> event list" where
  "callsFor subs paths = concat (map (\<lambda>p. map (PathCall p) (registered subs p)) paths)"

definition registeredEvent :: "(string \<times> callback list) list \<Rightarrow> event \<Rightarrow> bool" where
  "registeredEvent subs e =
     (case e of PathCall p cb \<Rightarrow> cb \<in> set (registered subs p) | _ \<Rightarrow> False)"

text \<open>A value in which no object lists a key twice, as every object of the source is.\<close>

fun wfVal :: "jsval \<Rightarrow> bool" where
  "wfVal (JObj kvs) = (distinct (map fst kvs) \<and> (\<forall>e\<in>set kvs. wfVal (snd e)))"
| "wfVal v = True"

text \<open>Segments joined by dots, the inverse of \<open>split_dot\<close>.\<close>

fun dotJoin :: "string list \<Rightarrow> string" where
  "dotJoin [] = []"
| "dotJoin (k # ks) = k @ concat (map (\<lambda>x. CHR ''.'' # x) ks)"

text \<open>The registry holds no path with an empty set of callbacks.\<close>

definition noEmptySets :: "(string \<times> callback list) list \<Rightarrow> bool" where
  "noEmptySets subs = (\<forall>e\<in>set subs. snd e \<noteq> [])"

definition dependenciesOf :: "(string \<times> string list) list \<Rightarrow> string \<Rightarrow> string list" where
  "dependenciesOf dc path = (case map_of dc path of None \<Rightarrow> [] | Some deps \<Rightarrow> deps)"

definition pathsOk :: "(string \<times> pathInfo) list \<Rightarrow> bool" where
  "pathsOk pc = (\<forall>p i. map_of pc p = Some i \<longrightarrow> i = parsePath p)"

definition depsOk :: "(string \<times> pathInfo) list \<Rightarrow> (string \<times> string list) list \<Rightarrow> bool" where
  "depsOk pc dc =
     (\<forall>q pp. map_of pc q \<noteq> None \<longrightarrow> pp \<in> set (parentPaths (parsePath q))
              \<longrightarrow> q \<in> set (dependenciesOf dc pp))"

text \<open>
  A store that keeps the set \<open>A\<close> to itself: nothing outside \<open>A\<close> points into it, and
  the state tree and the fallback tree lie outside it; a later store that has the
  initial snapshot of an earlier one, with the cells of \<open>A\<close> as they were.
\<close>

definition guards :: "addr set \<Rightarrow> storeH \<Rightarrow> bool" where
  "guards A s =
     (sealed A (heap s) \<and> refsIn (- A) (dataH s) \<and> refsIn (- A) (fallbackDataH s)
      \<and> propertyCacheH s = [] \<and> pathsOk (pathCacheH s))"

definition frozen :: "addr set \<Rightarrow> storeH \<Rightarrow> storeH \<Rightarrow> bool" where
  "frozen A s s' = (keeps A (heap s) (heap s') \<and> initialDataH s' = initialDataH s)"

text \<open>The initial snapshot lies in \<open>A\<close>, whose cells point into \<open>A\<close> only, and stands for \<open>T\<close>.\<close>

definition snapshot :: "addr set \<Rightarrow> jsval \<Rightarrow> storeH \<Rightarrow> bool" where
  "snapshot A T s =
     (closedIn A (heap s) \<and> refsIn A (initialDataH s) \<and> repr (heap s) (initialDataH s) T)"

section \<open>Properties of the single-object store\<close>

subsection \<open>Frame lemmas of the cached helpers\<close>

lemma getCachedPath_idem:
  "getCachedPath path False (snd (getCachedPath path False s)) = getCachedPath path False s"
  by (auto simp: getCachedPath_def Let_def update_conv' split: option.splits)

lemma getCachedPath_frame [simp]:
  "data (snd (getCachedPath path flush s)) = data s"
  "initialData (snd (getCachedPath path flush s)) = initialData s"
  "fallbackData (snd (getCachedPath path flush s)) = fallbackData s"
  "propertyCache (snd (getCachedPath path flush s)) = propertyCache s"
  "subscribers (snd (getCachedPath path flush s)) = subscribers s"
  "calls (snd (getCachedPath path flush s)) = calls s"
  by (auto simp: getCachedPath_def Let_def split: option.splits)

lemma getCachedProperty_snd:
  "snd (getCachedProperty path flush s) = s
   \<or> snd (getCachedProperty path flush s) = snd (getCachedPath path False s)"
  by (auto simp: getCachedProperty_def Let_def split: option.splits prod.splits)

lemma getCachedProperty_frame [simp]:
  "data (snd (getCachedProperty path flush s)) = data s"
  "initialData (snd (getCachedProperty path flush s)) = initialData s"
  "fallbackData (snd (getCachedProperty path flush s)) = fallbackData s"
  "propertyCache (snd (getCachedProperty path flush s)) = propertyCache s"
  "subscribers (snd (getCachedProperty path flush s)) = subscribers s"
  "calls (snd (getCachedProperty path flush s)) = calls s"
  using getCachedProperty_snd[of path flush s] by auto

lemma getCachedProperty_after_path:
  "getCachedProperty path False (snd (getCachedPath path False s)) =
     (fst (getCachedProperty path False s), snd (getCachedPath path False s))"
  by (auto simp: getCachedProperty_def getCachedPath_idem Let_def
           split: option.splits prod.splits)

subsection \<open>Notification as a list of events\<close>

lemma callsFor_Nil [simp]: "callsFor subs [] = []"
  by (simp add: callsFor_def)

lemma callsFor_Cons [simp]:
  "callsFor subs (p # ps) = map (PathCall p) (registered subs p) @ callsFor subs ps"
  by (simp add: callsFor_def)

lemma callsFor_append [simp]: "callsFor subs (ps @ qs) = callsFor subs ps @ callsFor subs qs"
  by (simp add: callsFor_def)

lemma in_callsFor:
  "e \<in> set (callsFor subs ps) \<longleftrightarrow>
     (\<exists>p cb. p \<in> set ps \<and> cb \<in> set (registered subs p) \<and> e = PathCall p cb)"
  by (induction ps) auto

lemma notifySubscribers_eq:
  "notifySubscribers path s = s\<lparr>calls := calls s @ callsFor (subscribers s) [path]\<rparr>"
  by (simp add: notifySubscribers_def registered_def split: option.splits)

lemma foldl_notifySubscribers:
  "foldl (\<lambda>st p. notifySubscribers p st) s ps
     = s\<lparr>calls := calls s @ callsFor (subscribers s) ps\<rparr>"
proof (induction ps arbitrary: s)
  case Nil
  show ?case by simp
next
  case (Cons p ps)
  have "foldl (\<lambda>st p. notifySubscribers p st) s (p # ps)
          = foldl (\<lambda>st p. notifySubscribers p st) (notifySubscribers p s) ps"
    by simp
  also have "\<dots> = (notifySubscribers p s)
        \<lparr>calls := calls (notifySubscribers p s) @ callsFor (subscribers (notifySubscribers p s)) ps\<rparr>"
    by (rule Cons.IH)
  also have "\<dots> = s\<lparr>calls := calls s @ callsFor (subscribers s) (p # ps)\<rparr>"
    by (simp add: notifySubscribers_eq)
  finally show ?case .
qed

lemma getCachedPath_calls_update:
  "getCachedPath path flush (s\<lparr>calls := c\<rparr>)
     = (fst (getCachedPath path flush s), (snd (getCachedPath path flush s))\<lparr>calls := c\<rparr>)"
  by (simp add: getCachedPath_def Let_def split: option.splits)

lemma getCachedPath_data_update:
  "getCachedPath path flush (s\<lparr>data := d\<rparr>)
     = (fst (getCachedPath path flush s), (snd (getCachedPath path flush s))\<lparr>data := d\<rparr>)"
  by (simp add: getCachedPath_def Let_def split: option.splits)

lemma notifyNestedSubscribers_eq:
  "notifyNestedSubscribers path s =
     (snd (getCachedPath path False s))
       \<lparr>calls := calls s @ callsFor (subscribers s)
                   (path # parentPaths (fst (getCachedPath path False s)))\<rparr>"
  unfolding notifyNestedSubscribers_def Let_def case_prod_beta foldl_notifySubscribers
  by (simp add: notifySubscribers_eq getCachedPath_calls_update)

lemma notifyDependencies_eq:
  "notifyDependencies path s =
     s\<lparr>calls := calls s @ callsFor (subscribers s) (dependenciesOf (dependencyCache s) path)\<rparr>"
  unfolding notifyDependencies_def dependenciesOf_def foldl_notifySubscribers
  by (simp split: option.splits)

subsection \<open>The calls in normal form\<close>

lemma getCachedPath_cached:
  "getCachedPath path False (snd (getCachedPath path False s)\<lparr>data := d\<rparr>)
     = (fst (getCachedPath path False s), snd (getCachedPath path False s)\<lparr>data := d\<rparr>)"
  by (simp add: getCachedPath_data_update getCachedPath_idem)

lemma notifyMutation_eq:
  "notifyMutation notify path s =
     (if notify
      then (snd (getCachedPath path False s))
             \<lparr>calls := calls s
                @ callsFor (subscribers s) (path # parentPaths (fst (getCachedPath path False s)))
                @ callsFor (subscribers s)
                    (dependenciesOf (dependencyCache (snd (getCachedPath path False s))) path)\<rparr>
      else s)"
  by (simp add: notifyMutation_def notifyNestedSubscribers_eq notifyDependencies_eq)

text \<open>The store after a mutation of \<open>path\<close> that wrote the tree \<open>d\<close>.\<close>

lemma notifyMutation_after_write:
  "notifyMutation notify path (snd (getCachedPath path False s)\<lparr>data := d\<rparr>) =
     (snd (getCachedPath path False s))
       \<lparr>data := d,
        calls := calls s @
          (if notify
           then callsFor (subscribers s) (path # parentPaths (fst (getCachedPath path False s)))
                @ callsFor (subscribers s)
                    (dependenciesOf (dependencyCache (snd (getCachedPath path False s))) path)
           else [])\<rparr>"
  by (simp add: notifyMutation_eq getCachedPath_cached)

lemma set_op_eq:
  "set_op path v notify s =
     (case fst (getCachedProperty path False s) of
        Inl e \<Rightarrow> (Inl e, snd (getCachedPath path False s))
      | Inr propInfo \<Rightarrow>
         (case (if \<not> truthy (parentProp propInfo)
                then materialize (data s) (parentPaths (fst (getCachedPath path False s)))
                       (currentKey (fst (getCachedPath path False s))) v
                else (case setProp (parentProp propInfo)
                             (currentKey (fst (getCachedPath path False s))) v of
                        Inl e \<Rightarrow> Inl e
                      | Inr c \<Rightarrow>
                          Inr (putAt (data s) (parentKeys (fst (getCachedPath path False s))) c))) of
            Inl e \<Rightarrow> (Inl e, snd (getCachedPath path False s))
          | Inr d \<Rightarrow>
              (Inr (),
               notifyMutation notify path (snd (getCachedPath path False s)\<lparr>data := d\<rparr>))))"
  by (simp add: set_op_def Let_def case_prod_beta getCachedProperty_after_path
           split: sum.splits)

lemma update_eq:
  "update path u notify s =
     (case fst (getCachedProperty path False s) of
        Inl e \<Rightarrow> (Inl e, snd (getCachedPath path False s))
      | Inr propInfo \<Rightarrow>
         if \<not> truthy (parentProp propInfo) then (Inr (), snd (getCachedPath path False s))
         else
           (case (case u of
                    Transform f \<Rightarrow>
                      (case getProp (parentProp propInfo)
                              (currentKey (fst (getCachedPath path False s))) of
                         Inl e \<Rightarrow> Inl e
                       | Inr prev \<Rightarrow>
                           setProp (parentProp propInfo)
                             (currentKey (fst (getCachedPath path False s))) (f prev))
                  | Direct v \<Rightarrow>
                      setProp (parentProp propInfo)
                        (currentKey (fst (getCachedPath path False s))) v) of
              Inl e \<Rightarrow> (Inl e, snd (getCachedPath path False s))
            | Inr c \<Rightarrow>
                (Inr (),
                 notifyMutation notify path
                   (snd (getCachedPath path False s)
                      \<lparr>data := putAt (data s) (parentKeys (fst (getCachedPath path False s))) c\<rparr>))))"
  by (simp add: update_def Let_def case_prod_beta getCachedProperty_after_path
           split: sum.splits)

lemma remove_eq:
  "remove path notify s =
     (case fst (getCachedProperty path False s) of
        Inl e \<Rightarrow> (Inl e, snd (getCachedPath path False s))
      | Inr propInfo \<Rightarrow>
         if \<not> truthy (parentProp propInfo) then (Inr (), snd (getCachedPath path False s))
         else
           (case deleteProp (parentProp propInfo)
                   (currentKey (fst (getCachedPath path False s))) of
              Inl e \<Rightarrow> (Inl e, snd (getCachedPath path False s))
            | Inr c \<Rightarrow>
                (Inr (),
                 notifyMutation notify path
                   (snd (getCachedPath path False s)
                      \<lparr>data := putAt (data s) (parentKeys (fst (getCachedPath path False s))) c\<rparr>))))"
  by (simp add: remove_def Let_def case_prod_beta getCachedProperty_after_path
           split: sum.splits)

lemma get_snd: "snd (get path s) = snd (getCachedPath path False s)"
  by (simp add: get_def Let_def case_prod_beta getCachedProperty_after_path
           split: sum.splits)

lemma reset_eq:
  "reset notify s =
     s\<lparr>data := deepClone (initialData s),
       calls := calls s @ (if notify then callsFor (subscribers s) (map fst (subscribers s)) else [])\<rparr>"
  by (simp add: reset_def Let_def foldl_notifySubscribers)

lemma callsFor_registered: "e \<in> set (callsFor subs ps) \<Longrightarrow> registeredEvent subs e"
  by (auto simp: in_callsFor registeredEvent_def)

lemma notifyMutation_calls:
  "\<exists>evs. calls (notifyMutation notify path (snd (getCachedPath path False s)\<lparr>data := d\<rparr>))
           = calls s @ evs \<and> (\<forall>e\<in>set evs. registeredEvent (subscribers s) e)"
  by (auto simp: notifyMutation_after_write registeredEvent_def in_callsFor)

lemma notifyMutation_fields [simp]:
  "propertyCache (notifyMutation notify path s) = propertyCache s"
  "initialData (notifyMutation notify path s) = initialData s"
  "fallbackData (notifyMutation notify path s) = fallbackData s"
  "subscribers (notifyMutation notify path s) = subscribers s"
  "data (notifyMutation notify path s) = data s"
  by (simp_all add: notifyMutation_eq)

lemma step_calls:
  "\<exists>evs. calls (step c s) = calls s @ evs \<and> (\<forall>e\<in>set evs. registeredEvent (subscribers s) e)"
proof (cases c)
  case (Get path)
  then show ?thesis by (simp add: get_snd)
next
  case (Set path v notify)
  then show ?thesis
    using notifyMutation_calls[where notify=notify and path=path and s=s]
    by (auto simp: set_op_eq split: sum.splits)
next
  case (Update path u notify)
  then show ?thesis
    using notifyMutation_calls[where notify=notify and path=path and s=s]
    by (auto simp: update_eq split: sum.splits)
next
  case (Remove path notify)
  then show ?thesis
    using notifyMutation_calls[where notify=notify and path=path and s=s]
    by (auto simp: remove_eq split: sum.splits)
next
  case (Reset notify)
  then show ?thesis by (auto simp: reset_eq dest: callsFor_registered)
next
  case (Subscribe path cb)
  then show ?thesis by (simp add: addSubscriber_def Let_def split: option.splits)
next
  case (Unsubscribe path cb)
  then show ?thesis by (simp add: removeSubscriber_def Let_def split: option.splits)
qed

lemma step_fields [simp]:
  "propertyCache (step c s) = propertyCache s"
  "initialData (step c s) = initialData s"
  "fallbackData (step c s) = fallbackData s"
  by (cases c; simp add: get_snd set_op_eq update_eq remove_eq reset_eq addSubscriber_def
        removeSubscriber_def Let_def split: sum.splits option.splits)+

subsection \<open>The subscriber registry\<close>

lemma registered_addSubscriber:
  "registered (subscribers (addSubscriber p c s)) q =
     (if q = p then setAdd c (registered (subscribers s) p) else registered (subscribers s) q)"
  by (auto simp: addSubscriber_def registered_def Let_def update_conv' setAdd_def
           split: option.splits)

lemma registered_removeSubscriber:
  "registered (subscribers (removeSubscriber p c s)) q =
     (if q = p then removeAll c (registered (subscribers s) p) else registered (subscribers s) q)"
  by (auto simp: removeSubscriber_def registered_def Let_def update_conv' delete_conv'
           split: option.splits)

lemma set_update_subset: "set (AList.update k v al) \<subseteq> insert (k, v) (set al)"
  by (induction al) auto

lemma set_delete_subset: "set (AList.delete k al) \<subseteq> set al"
  by (auto simp: AList.delete_eq)

lemma addSubscriber_nonempty:
  assumes "noEmptySets (subscribers s)"
  shows "noEmptySets (subscribers (addSubscriber path c s))"
proof -
  have ne: "setAdd c cbs \<noteq> []" for cbs
    by (auto simp: setAdd_def)
  show ?thesis
  proof (cases "map_of (subscribers s) path")
    case None
    have "subscribers (addSubscriber path c s)
            = AList.update path (setAdd c []) (AList.update path [] (subscribers s))"
      using None by (simp add: addSubscriber_def Let_def update_conv')
    then have "subscribers (addSubscriber path c s) = AList.update path (setAdd c []) (subscribers s)"
      by simp
    then show ?thesis
      using assms ne[of "[]"] set_update_subset[of path "setAdd c []" "subscribers s"]
      by (auto simp: noEmptySets_def)
  next
    case (Some cbs)
    then have "subscribers (addSubscriber path c s) = AList.update path (setAdd c cbs) (subscribers s)"
      by (simp add: addSubscriber_def Let_def)
    then show ?thesis
      using assms ne[of cbs] set_update_subset[of path "setAdd c cbs" "subscribers s"]
      by (auto simp: noEmptySets_def)
  qed
qed

lemma removeSubscriber_nonempty:
  assumes "noEmptySets (subscribers s)"
  shows "noEmptySets (subscribers (removeSubscriber path c s))"
proof (cases "map_of (subscribers s) path")
  case None
  then show ?thesis using assms by (simp add: removeSubscriber_def)
next
  case (Some cbs)
  show ?thesis
  proof (cases "removeAll c cbs = []")
    case True
    then have "subscribers (removeSubscriber path c s) = AList.delete path (subscribers s)"
      using Some by (simp add: removeSubscriber_def Let_def)
    then show ?thesis
      using assms set_delete_subset[of path "subscribers s"] by (auto simp: noEmptySets_def)
  next
    case False
    then have "subscribers (removeSubscriber path c s)
                 = AList.update path (removeAll c cbs) (subscribers s)"
      using Some by (simp add: removeSubscriber_def Let_def)
    then show ?thesis
      using assms False set_update_subset[of path "removeAll c cbs" "subscribers s"]
      by (auto simp: noEmptySets_def)
  qed
qed

lemma removeSubscriber_last:
  assumes "set (registered (subscribers s) path) \<subseteq> {c}"
  shows "path \<notin> fst ` set (subscribers (removeSubscriber path c s))"
proof (cases "map_of (subscribers s) path")
  case None
  then have "path \<notin> fst ` set (subscribers s)"
    by (simp add: map_of_eq_None_iff)
  then show ?thesis using None by (simp add: removeSubscriber_def)
next
  case (Some cbs)
  then have "set cbs \<subseteq> {c}" using assms by (simp add: registered_def)
  then have "removeAll c cbs = []" by (induction cbs) auto
  then have "subscribers (removeSubscriber path c s) = AList.delete path (subscribers s)"
    using Some by (simp add: removeSubscriber_def Let_def)
  then show ?thesis by (simp add: delete_notin_dom)
qed

lemma call_subscribers [simp]:
  "subscribers (snd (get path s)) = subscribers s"
  "subscribers (snd (set_op path v notify s)) = subscribers s"
  "subscribers (snd (update path u notify s)) = subscribers s"
  "subscribers (snd (remove path notify s)) = subscribers s"
  "subscribers (reset notify s) = subscribers s"
  by (simp_all add: get_snd set_op_eq update_eq remove_eq reset_eq split: sum.splits)

lemma step_nonempty:
  assumes "noEmptySets (subscribers s)"
  shows "noEmptySets (subscribers (step c s))"
proof (cases c)
  case (Subscribe p cb)
  then show ?thesis using addSubscriber_nonempty[OF assms] by simp
next
  case (Unsubscribe p cb)
  then show ?thesis using removeSubscriber_nonempty[OF assms] by simp
qed (use assms in simp_all)

lemma run_Nil [simp]: "run [] s = s"
  by (simp add: run_def)

lemma run_Cons [simp]: "run (c # cs) s = run cs (step c s)"
  by (simp add: run_def)

lemma run_append [simp]: "run (cs @ ds) s = run ds (run cs s)"
  by (simp add: run_def)

lemma run_nonempty:
  "noEmptySets (subscribers s) \<Longrightarrow>
   noEmptySets (subscribers (run cs s))"
  by (induction cs arbitrary: s) (simp_all add: step_nonempty)

lemma run_fields [simp]:
  "propertyCache (run cs s) = propertyCache s"
  "initialData (run cs s) = initialData s"
  "fallbackData (run cs s) = fallbackData s"
  by (induction cs arbitrary: s) simp_all

lemma step_unsubscribed:
  assumes "cb \<notin> set (registered (subscribers s) P)" and "c \<noteq> Subscribe P cb"
  shows "cb \<notin> set (registered (subscribers (step c s)) P)"
  using assms
  by (cases c) (auto simp: registered_addSubscriber
                  registered_removeSubscriber setAdd_def split: if_splits)

lemma run_unsubscribed:
  assumes "cb \<notin> set (registered (subscribers s) P)" and "Subscribe P cb \<notin> set cs"
  shows "\<exists>evs. calls (run cs s) = calls s @ evs \<and> PathCall P cb \<notin> set evs
           \<and> cb \<notin> set (registered (subscribers (run cs s)) P)"
  using assms
proof (induction cs arbitrary: s)
  case Nil
  then show ?case by simp
next
  case (Cons c cs)
  from Cons.prems have c: "c \<noteq> Subscribe P cb" and cs: "Subscribe P cb \<notin> set cs"
    by auto
  obtain evs where evs: "calls (step c s) = calls s @ evs"
      "\<forall>e\<in>set evs. registeredEvent (subscribers s) e"
    using step_calls[of c s] by blast
  from evs(2) Cons.prems(1) have no: "PathCall P cb \<notin> set evs"
    by (auto simp: registeredEvent_def)
  from step_unsubscribed[OF Cons.prems(1) c]
  obtain evs' where evs': "calls (run cs (step c s)) = calls (step c s) @ evs'"
      "PathCall P cb \<notin> set evs'"
      "cb \<notin> set (registered (subscribers (run cs (step c s))) P)"
    using Cons.IH[OF _ cs] by blast
  show ?case
    using evs(1) evs' no by (intro exI[of _ "evs @ evs'"]) simp
qed

lemma create_noEmptySets: "noEmptySets (subscribers (create i f))"
  by (simp add: create_def noEmptySets_def)

subsection \<open>Splitting and prefix paths\<close>

lemma split_dot_nonempty [simp]: "split_dot s \<noteq> []"
  by (induction s) (auto split: list.splits)

lemma split_dot_append:
  "split_dot (a @ CHR ''.'' # b) = split_dot a @ split_dot b"
proof (induction a)
  case Nil
  show ?case by simp
next
  case (Cons c a)
  obtain w ws where w: "split_dot a = w # ws"
    using split_dot_nonempty[of a] by (cases "split_dot a") auto
  show ?case using Cons w by simp
qed

lemma dotJoin_split_dot [simp]: "dotJoin (split_dot s) = s"
proof (induction s)
  case Nil
  show ?case by simp
next
  case (Cons c s)
  obtain w ws where w: "split_dot s = w # ws"
    using split_dot_nonempty[of s] by (cases "split_dot s") auto
  show ?case using Cons w by simp
qed

lemma foldl_pushPath_extends:
  "\<exists>zs. foldl pushPath acc ks = acc @ zs \<and> length zs = length ks"
proof (induction ks arbitrary: acc)
  case Nil
  show ?case by simp
next
  case (Cons k ks)
  obtain zs where zs: "foldl pushPath (pushPath acc k) ks = pushPath acc k @ zs"
      "length zs = length ks"
    using Cons.IH[of "pushPath acc k"] by blast
  obtain x where x: "pushPath acc k = acc @ [x]"
    by (cases "acc = []") (auto simp: pushPath_def)
  show ?case using zs x by (intro exI[of _ "x # zs"]) simp
qed

lemma last_foldl_pushPath:
  "acc \<noteq> [] \<Longrightarrow>
   last (foldl pushPath acc ks) = last acc @ concat (map (\<lambda>x. CHR ''.'' # x) ks)"
  by (induction ks arbitrary: acc) (simp_all add: pushPath_def)

lemma allPathsOf_last:
  assumes "ks \<noteq> []"
  shows "allPathsOf ks \<noteq> [] \<and> last (allPathsOf ks) = dotJoin ks"
proof -
  obtain k ks' where ks: "ks = k # ks'" using assms by (cases ks) auto
  have "allPathsOf ks = foldl pushPath [k] ks'"
    by (simp add: allPathsOf_def ks pushPath_def)
  moreover obtain zs where "foldl pushPath [k] ks' = [k] @ zs"
    using foldl_pushPath_extends[of "[k]" ks'] by blast
  ultimately show ?thesis
    using last_foldl_pushPath[of "[k]" ks'] by (simp add: ks)
qed

text \<open>A strict dot-prefix of a path is one of its parent paths.\<close>

lemma prefix_in_parentPaths: "P \<in> set (parentPaths (parsePath (P @ ''.'' @ R)))"
proof -
  let ?A = "allPathsOf (split_dot P)"
  let ?Q = "P @ CHR ''.'' # R"
  have A: "?A \<noteq> []" "last ?A = P"
    using allPathsOf_last[of "split_dot P"] by simp_all
  have "allPathsOf (split_dot ?Q) = foldl pushPath ?A (split_dot R)"
    by (simp add: split_dot_append allPathsOf_def)
  then obtain zs where zs: "allPathsOf (split_dot ?Q) = ?A @ zs"
      "length zs = length (split_dot R)"
    using foldl_pushPath_extends[of ?A "split_dot R"] by auto
  have ne: "zs \<noteq> []" using zs(2) split_dot_nonempty[of R] by auto
  have "P \<in> set ?A" using A by (metis last_in_set)
  moreover have "butlast (?A @ zs) = ?A @ butlast zs"
    using ne by (simp add: butlast_append)
  moreover have "length (?A @ zs) > 1"
    using A(1) ne by (cases ?A; cases zs) auto
  ultimately have "P \<in> set (parentPaths (parsePath ?Q))"
    by (simp add: parsePath_def Let_def zs(1) del: append_assoc)
  then show ?thesis by simp
qed

subsection \<open>The two path caches\<close>

lemma dependenciesOf_addDependency:
  "dependenciesOf (addDependency path dc pp) x =
     (if x = pp then setAdd path (dependenciesOf dc pp) else dependenciesOf dc x)"
  by (auto simp: addDependency_def dependenciesOf_def Let_def update_conv' split: option.splits)

lemma foldl_addDependency_mono:
  "q \<in> set (dependenciesOf dc x) \<Longrightarrow>
   q \<in> set (dependenciesOf (foldl (addDependency path) dc pps) x)"
proof (induction pps arbitrary: dc)
  case Nil
  then show ?case by simp
next
  case (Cons a pps)
  have "q \<in> set (dependenciesOf (addDependency path dc a) x)"
    using Cons.prems by (auto simp: dependenciesOf_addDependency setAdd_def)
  then show ?case using Cons.IH by simp
qed

lemma foldl_addDependency_adds:
  "pp \<in> set pps \<Longrightarrow> path \<in> set (dependenciesOf (foldl (addDependency path) dc pps) pp)"
proof (induction pps arbitrary: dc)
  case Nil
  then show ?case by simp
next
  case (Cons a pps)
  show ?case
  proof (cases "pp = a")
    case True
    have "path \<in> set (dependenciesOf (addDependency path dc a) a)"
      by (simp add: dependenciesOf_addDependency setAdd_def)
    then show ?thesis using True by (simp add: foldl_addDependency_mono)
  next
    case False
    then show ?thesis using Cons by simp
  qed
qed

lemma getCachedPath_fst:
  "pathsOk (pathCache s) \<Longrightarrow> fst (getCachedPath path flush s) = parsePath path"
  by (auto simp: getCachedPath_def pathsOk_def Let_def split: option.splits)

lemma getCachedPath_pathsOk:
  "pathsOk (pathCache s) \<Longrightarrow> pathsOk (pathCache (snd (getCachedPath path flush s)))"
  by (auto simp: getCachedPath_def pathsOk_def Let_def update_conv' split: option.splits if_splits)

lemma getCachedPath_depsOk:
  assumes "depsOk (pathCache s) (dependencyCache s)"
  shows "depsOk (pathCache (snd (getCachedPath path flush s)))
           (dependencyCache (snd (getCachedPath path flush s)))"
proof (cases "(if flush then None else map_of (pathCache s) path)")
  case (Some i)
  then show ?thesis using assms by (simp add: getCachedPath_def)
next
  case None
  then have pc: "pathCache (snd (getCachedPath path flush s))
                   = AList.update path (parsePath path) (pathCache s)"
    and dc: "dependencyCache (snd (getCachedPath path flush s))
                   = foldl (addDependency path) (dependencyCache s) (parentPaths (parsePath path))"
    by (simp_all add: getCachedPath_def Let_def)
  show ?thesis
    unfolding depsOk_def pc dc
  proof (intro allI impI)
    fix q pp
    assume q: "map_of (AList.update path (parsePath path) (pathCache s)) q \<noteq> None"
      and pp: "pp \<in> set (parentPaths (parsePath q))"
    show "q \<in> set (dependenciesOf
             (foldl (addDependency path) (dependencyCache s) (parentPaths (parsePath path))) pp)"
    proof (cases "q = path")
      case True
      then show ?thesis using pp by (simp add: foldl_addDependency_adds)
    next
      case False
      then have "map_of (pathCache s) q \<noteq> None" using q by (simp add: update_conv')
      then have "q \<in> set (dependenciesOf (dependencyCache s) pp)"
        using assms pp by (simp add: depsOk_def)
      then show ?thesis by (rule foldl_addDependency_mono)
    qed
  qed
qed

lemma getCachedPath_keeps_cached:
  "map_of (pathCache s) q \<noteq> None \<Longrightarrow>
   map_of (pathCache (snd (getCachedPath path flush s))) q \<noteq> None"
  by (auto simp: getCachedPath_def Let_def update_conv' split: option.splits)

lemma getCachedPath_caches:
  "map_of (pathCache (snd (getCachedPath path False s))) path \<noteq> None"
  by (auto simp: getCachedPath_def Let_def update_conv' split: option.splits)

lemma call_caches [simp]:
  "pathCache (snd (get p s)) = pathCache (snd (getCachedPath p False s))"
  "dependencyCache (snd (get p s)) = dependencyCache (snd (getCachedPath p False s))"
  "pathCache (snd (set_op p v notify s)) = pathCache (snd (getCachedPath p False s))"
  "dependencyCache (snd (set_op p v notify s)) = dependencyCache (snd (getCachedPath p False s))"
  "pathCache (snd (update p u notify s)) = pathCache (snd (getCachedPath p False s))"
  "dependencyCache (snd (update p u notify s)) = dependencyCache (snd (getCachedPath p False s))"
  "pathCache (snd (remove p notify s)) = pathCache (snd (getCachedPath p False s))"
  "dependencyCache (snd (remove p notify s)) = dependencyCache (snd (getCachedPath p False s))"
  "pathCache (reset notify s) = pathCache s"
  "dependencyCache (reset notify s) = dependencyCache s"
  "pathCache (addSubscriber p cb s) = pathCache s"
  "dependencyCache (addSubscriber p cb s) = dependencyCache s"
  "pathCache (removeSubscriber p cb s) = pathCache s"
  "dependencyCache (removeSubscriber p cb s) = dependencyCache s"
  by (simp_all add: get_snd set_op_eq update_eq remove_eq reset_eq notifyMutation_after_write
        addSubscriber_def removeSubscriber_def Let_def split: sum.splits option.splits)

lemma step_cachesOk:
  assumes "pathsOk (pathCache s)" and "depsOk (pathCache s) (dependencyCache s)"
  shows "pathsOk (pathCache (step c s))"
    and "depsOk (pathCache (step c s)) (dependencyCache (step c s))"
  using assms by (cases c; simp add: getCachedPath_pathsOk getCachedPath_depsOk)+

lemma run_cachesOk:
  assumes "pathsOk (pathCache s)" and "depsOk (pathCache s) (dependencyCache s)"
  shows "pathsOk (pathCache (run cs s)) \<and> depsOk (pathCache (run cs s)) (dependencyCache (run cs s))"
  using assms by (induction cs arbitrary: s) (simp_all add: step_cachesOk)

lemma create_cachesOk:
  "pathsOk (pathCache (create i f))"
  "depsOk (pathCache (create i f)) (dependencyCache (create i f))"
  by (simp_all add: create_def pathsOk_def depsOk_def)

lemma reachable_cachesOk:
  "pathsOk (pathCache (run cs (create i f)))"
  "depsOk (pathCache (run cs (create i f))) (dependencyCache (run cs (create i f)))"
  using run_cachesOk[OF create_cachesOk] by simp_all

lemma set_op_emitted:
  assumes "fst (set_op P v True s) = Inr ()"
  shows "emitted s (snd (set_op P v True s)) =
           callsFor (subscribers s) (P # parentPaths (fst (getCachedPath P False s)))
           @ callsFor (subscribers s)
               (dependenciesOf (dependencyCache (snd (getCachedPath P False s))) P)"
  using assms
  by (auto simp: set_op_eq notifyMutation_after_write emitted_def split: sum.splits if_splits)

lemma get_resolves: "map_of (pathCache (snd (get Q s))) Q \<noteq> None"
  by (simp add: getCachedPath_caches)

subsection \<open>deepClone\<close>

lemma update_fresh: "k \<notin> fst ` set al \<Longrightarrow> AList.update k v al = al @ [(k, v)]"
  by (induction al) auto

lemma foldl_update_distinct:
  "distinct (map fst (acc @ es)) \<Longrightarrow>
   foldl (\<lambda>acc e. AList.update (fst e) (snd e) acc) acc es = acc @ es"
proof (induction es arbitrary: acc)
  case Nil
  show ?case by simp
next
  case (Cons e es)
  have fresh: "fst e \<notin> fst ` set acc" using Cons.prems by auto
  have "distinct (map fst ((acc @ [e]) @ es))" using Cons.prems by simp
  from Cons.IH[OF this] show ?case
    by (simp add: update_fresh[OF fresh])
qed

lemma fromEntries_distinct_id: "distinct (map fst es) \<Longrightarrow> fromEntries es = es"
  using foldl_update_distinct[of "[]" es] by (simp add: fromEntries_def)

lemma foldl_update_keys_distinct:
  "distinct (map fst acc) \<Longrightarrow>
   distinct (map fst (foldl (\<lambda>acc e. AList.update (fst e) (snd e) acc) acc es))"
  by (induction es arbitrary: acc) (simp_all add: distinct_update)

lemma fromEntries_distinct: "distinct (map fst (fromEntries es))"
  by (simp add: fromEntries_def foldl_update_keys_distinct)

lemma foldl_update_subset:
  "set (foldl (\<lambda>acc e. AList.update (fst e) (snd e) acc) acc es) \<subseteq> set acc \<union> set es"
proof (induction es arbitrary: acc)
  case Nil
  show ?case by simp
next
  case (Cons e es)
  show ?case
    using Cons.IH[of "AList.update (fst e) (snd e) acc"]
      set_update_subset[of "fst e" "snd e" acc]
    by auto
qed

lemma fromEntries_subset: "set (fromEntries es) \<subseteq> set es"
  using foldl_update_subset[of "[]" es] by (simp add: fromEntries_def)

lemma snd_in_snds: "snd e \<in> Basic_BNFs.snds e"
  by (cases e) (auto intro: snds.intros)

lemma wfVal_deepClone: "wfVal (deepClone x)"
proof (induction x)
  case (JObj kvs)
  have "wfVal (snd e)" if "e \<in> set (fromEntries (map (\<lambda>e. (fst e, deepClone (snd e))) kvs))" for e
  proof -
    from that fromEntries_subset
    have "e \<in> set (map (\<lambda>e. (fst e, deepClone (snd e))) kvs)" by blast
    then obtain e0 where "e0 \<in> set kvs" "e = (fst e0, deepClone (snd e0))" by auto
    then show ?thesis using JObj.IH[of e0 "snd e0"] snd_in_snds[of e0] by simp
  qed
  then show ?case by (simp add: fromEntries_distinct)
qed simp_all

lemma deepClone_wfVal: "wfVal x \<Longrightarrow> deepClone x = x"
proof (induction x)
  case (JObj kvs)
  have "map (\<lambda>e. (fst e, deepClone (snd e))) kvs = kvs"
  proof (rule map_idI)
    fix e assume e: "e \<in> set kvs"
    then have "wfVal (snd e)" using JObj.prems by simp
    then have "deepClone (snd e) = snd e" using JObj.IH[of e "snd e"] e snd_in_snds[of e] by simp
    then show "(fst e, deepClone (snd e)) = e" by simp
  qed
  then show ?case using JObj.prems by (simp add: fromEntries_distinct_id)
qed simp_all

lemma deepClone_idem [simp]: "deepClone (deepClone x) = deepClone x"
  by (rule deepClone_wfVal[OF wfVal_deepClone])

subsection \<open>Reading depends on the three trees only\<close>

lemma getCachedProperty_fresh:
  "propertyCache s = [] \<Longrightarrow>
   getCachedProperty path flush s =
     (walkParents (parentKeys (fst (getCachedPath path False s)))
        \<lparr> parentProp = data s, fallbackProp = fallbackData s, initialProp = initialData s \<rparr>,
      snd (getCachedPath path False s))"
  by (simp add: getCachedProperty_def Let_def case_prod_beta)

lemma get_fst:
  "fst (get path s) =
     (case fst (getCachedProperty path False s) of
        Inl e \<Rightarrow> Inl e
      | Inr propInfo \<Rightarrow>
         (case andProp (parentProp propInfo) (currentKey (fst (getCachedPath path False s))) of
            Inl e \<Rightarrow> Inl e
          | Inr originalValue \<Rightarrow>
              if originalValue \<noteq> JUndefined then Inr originalValue
              else andProp (fallbackProp propInfo)
                     (currentKey (fst (getCachedPath path False s)))))"
  by (simp add: get_def Let_def case_prod_beta getCachedProperty_after_path
           split: sum.splits)

lemma get_same_trees:
  assumes "pathsOk (pathCache s)" "pathsOk (pathCache t)"
    and "propertyCache s = []" "propertyCache t = []"
    and "data s = data t" "fallbackData s = fallbackData t" "initialData s = initialData t"
  shows "fst (get path s) = fst (get path t)"
  using assms
  by (simp add: get_fst getCachedProperty_fresh getCachedPath_fst cong: sum.case_cong if_cong)

lemma create_fields [simp]:
  "propertyCache (create i f) = []"
  "data (create i f) = deepClone (orElse i (JObj []))"
  "initialData (create i f) = deepClone (orElse i (JObj []))"
  "fallbackData (create i f) = deepClone (orElse f (JObj []))"
  "calls (create i f) = []"
  "subscribers (create i f) = []"
  by (simp_all add: create_def)

lemma reset_fields [simp]:
  "data (reset notify s) = deepClone (initialData s)"
  "initialData (reset notify s) = initialData s"
  "fallbackData (reset notify s) = fallbackData s"
  "propertyCache (reset notify s) = propertyCache s"
  by (simp_all add: reset_eq)

lemma registered_in_keys:
  assumes "cb \<in> set (registered subs p)"
  shows "p \<in> set (map fst subs)"
proof (cases "map_of subs p")
  case None
  then show ?thesis using assms by (simp add: registered_def)
next
  case (Some cbs)
  then have "(p, cbs) \<in> set subs" by (rule map_of_SomeD)
  then show ?thesis by force
qed

subsection \<open>Writing a path whose ancestors are missing\<close>

text \<open>
  C1. \<open>set(P, v)\<close> followed by \<open>get(P)\<close> should return \<open>v\<close> also when the ancestors of
  \<open>P\<close> are missing. On the empty store, \<open>set("a.b.c", 1)\<close> walks the prefix paths
  \<open>"a"\<close>, \<open>"a.b"\<close> as keys: it stores the value under \<open>a\<close>, \<open>"a.b"\<close>, \<open>c\<close>, and the
  following \<open>get("a.b.c")\<close>, which walks the keys \<open>a\<close>, \<open>b\<close>, returns \<open>undefined\<close>.
\<close>

theorem set_then_get_missing_ancestors:
  "fst (set_op ''a.b.c'' (JNum 1) True (create (JObj []) JUndefined)) = Inr ()
   \<and> data (snd (set_op ''a.b.c'' (JNum 1) True (create (JObj []) JUndefined)))
       = JObj [(''a'', JObj [(''a.b'', JObj [(''c'', JNum 1)])])]
   \<and> fst (get ''a.b.c'' (snd (set_op ''a.b.c'' (JNum 1) True (create (JObj []) JUndefined))))
       = Inr JUndefined"
  by code_simp

subsection \<open>Reading through the fallback tree\<close>

text \<open>
  C5. \<open>get(P)\<close> should return the fallback tree's value at \<open>P\<close> when the live tree has
  none. With an empty live tree and the fallback tree \<open>{a: {b: {c: 1}}}\<close>,
  \<open>get("a.b.c")\<close> returns \<open>undefined\<close>: the locator leaves its loop at the first missing
  live container, before the fallback container has been advanced to \<open>a.b\<close>.
\<close>

theorem get_fallback_cut_short:
  "fst (get ''a.b.c''
         (create (JObj []) (JObj [(''a'', JObj [(''b'', JObj [(''c'', JNum 1)])])])))
     = Inr JUndefined"
  by code_simp

subsection \<open>update on a missing parent container\<close>

text \<open>
  C6. When the locator finds no parent container for \<open>P\<close> in the live tree,
  \<open>update(P, v)\<close> returns normally and is a no-op: the state tree is unchanged (so no
  ancestor is created), no callback is called, and the registry is unchanged.
\<close>

theorem update_absent_parent_noop:
  assumes "fst (getCachedProperty P False s) = Inr pr"
    and "parentProp pr = JUndefined"
  shows "fst (update P u notify s) = Inr ()
       \<and> data (snd (update P u notify s)) = data s
       \<and> calls (snd (update P u notify s)) = calls s
       \<and> subscribers (snd (update P u notify s)) = subscribers s"
  using assms
  by (simp add: update_def Let_def case_prod_beta getCachedProperty_after_path)

theorem update_absent_parent_noop_witness:
  "fst (getCachedProperty ''a.b'' False (addSubscriber ''a'' 7 (create (JObj []) JUndefined))) =
      Inr \<lparr>parentProp = JUndefined, fallbackProp = JUndefined, initialProp = JUndefined\<rparr>
   \<and> subscribers (addSubscriber ''a'' 7 (create (JObj []) JUndefined)) = [(''a'', [7])]
   \<and> fst (update ''a.b'' (Direct (JNum 1)) True
            (addSubscriber ''a'' 7 (create (JObj []) JUndefined))) = Inr ()
   \<and> data (snd (update ''a.b'' (Direct (JNum 1)) True
            (addSubscriber ''a'' 7 (create (JObj []) JUndefined)))) = JObj []
   \<and> calls (snd (update ''a.b'' (Direct (JNum 1)) True
            (addSubscriber ''a'' 7 (create (JObj []) JUndefined)))) = []"
proof -
  have h: "fst (getCachedProperty ''a.b'' False
                 (addSubscriber ''a'' 7 (create (JObj []) JUndefined))) =
      Inr \<lparr>parentProp = JUndefined, fallbackProp = JUndefined, initialProp = JUndefined\<rparr>"
    by code_simp
  have d: "data (addSubscriber ''a'' 7 (create (JObj []) JUndefined)) = JObj []"
    "calls (addSubscriber ''a'' 7 (create (JObj []) JUndefined)) = []"
    "subscribers (addSubscriber ''a'' 7 (create (JObj []) JUndefined)) = [(''a'', [7])]"
    by code_simp+
  from update_absent_parent_noop[OF h, of "Direct (JNum 1)" True] h d show ?thesis by simp
qed

subsection \<open>Unsubscribing\<close>

text \<open>
  C8. Take any store reached from its construction by the calls \<open>before\<close>, let the
  callback \<open>cb\<close> unsubscribe from the path \<open>P\<close>, and let any calls \<open>later\<close> follow.
  Unless \<open>cb\<close> subscribes to \<open>P\<close> again, no later call invokes \<open>cb\<close> as a subscriber of
  \<open>P\<close>; if \<open>cb\<close> was registered for no other path and subscribes to none, no later call
  invokes it at all. If \<open>cb\<close> was the last subscriber of \<open>P\<close>, the registry has no entry
  for \<open>P\<close> after the unsubscription. At every moment the registry holds no empty set.
\<close>

theorem unsubscribe_is_final:
  "(Subscribe P cb \<notin> set later \<longrightarrow>
      PathCall P cb \<notin> set (emitted (removeSubscriber P cb (run before (create i f)))
                              (run later (removeSubscriber P cb (run before (create i f))))))
   \<and> ((\<forall>q. q \<noteq> P \<longrightarrow> cb \<notin> set (registered (subscribers (run before (create i f))) q))
        \<and> (\<forall>q. Subscribe q cb \<notin> set later) \<longrightarrow>
      (\<forall>q. PathCall q cb \<notin> set (emitted (removeSubscriber P cb (run before (create i f)))
                              (run later (removeSubscriber P cb (run before (create i f)))))))
   \<and> (set (registered (subscribers (run before (create i f))) P) \<subseteq> {cb} \<longrightarrow>
        P \<notin> fst ` set (subscribers (removeSubscriber P cb (run before (create i f)))))
   \<and> noEmptySets (subscribers (run before (create i f)))
   \<and> noEmptySets (subscribers (run later (removeSubscriber P cb (run before (create i f)))))"
proof -
  let ?s = "run before (create i f)"
  let ?s1 = "removeSubscriber P cb ?s"
  have quiet: "PathCall q cb \<notin> set (emitted ?s1 (run later ?s1))"
    if g: "cb \<notin> set (registered (subscribers ?s1) q)" and h: "Subscribe q cb \<notin> set later" for q
  proof -
    obtain evs where "calls (run later ?s1) = calls ?s1 @ evs" "PathCall q cb \<notin> set evs"
      using run_unsubscribed[OF g h] by blast
    then show ?thesis by (simp add: emitted_def)
  qed
  have gone: "cb \<notin> set (registered (subscribers ?s1) P)"
    by (simp add: registered_removeSubscriber)
  have a: "Subscribe P cb \<notin> set later \<longrightarrow> PathCall P cb \<notin> set (emitted ?s1 (run later ?s1))"
    using quiet[OF gone] by blast
  have a': "(\<forall>q. q \<noteq> P \<longrightarrow> cb \<notin> set (registered (subscribers ?s) q))
        \<and> (\<forall>q. Subscribe q cb \<notin> set later) \<longrightarrow>
      (\<forall>q. PathCall q cb \<notin> set (emitted ?s1 (run later ?s1)))"
  proof (intro impI allI)
    fix q
    assume h: "(\<forall>q. q \<noteq> P \<longrightarrow> cb \<notin> set (registered (subscribers ?s) q))
        \<and> (\<forall>q. Subscribe q cb \<notin> set later)"
    have "cb \<notin> set (registered (subscribers ?s1) q)"
      using h gone by (cases "q = P") (simp_all add: registered_removeSubscriber)
    then show "PathCall q cb \<notin> set (emitted ?s1 (run later ?s1))"
      using quiet h by blast
  qed
  have b: "noEmptySets (subscribers ?s)"
    by (rule run_nonempty[OF create_noEmptySets])
  have c: "noEmptySets (subscribers (run later ?s1))"
    by (rule run_nonempty[OF removeSubscriber_nonempty[OF b]])
  show ?thesis
    using a a' b c removeSubscriber_last[of ?s P cb] by blast
qed

theorem unsubscribe_is_final_witness:
  "Subscribe ''a'' 1 \<notin> set [Set ''a'' (JNum 5) True, Set ''b'' (JNum 6) True]
   \<and> subscribers (run [Subscribe ''a'' 1, Subscribe ''b'' 2] (create JUndefined JUndefined))
       = [(''a'', [1]), (''b'', [2])]
   \<and> (\<forall>q. Subscribe q 1 \<notin> set [Set ''a'' (JNum 5) True, Set ''b'' (JNum 6) True])
   \<and> set (registered (subscribers
          (run [Subscribe ''a'' 1, Subscribe ''b'' 2] (create JUndefined JUndefined))) ''a'') \<subseteq> {1}
   \<and> (\<forall>q. PathCall q 1 \<notin> set (emitted
         (removeSubscriber ''a'' 1
            (run [Subscribe ''a'' 1, Subscribe ''b'' 2] (create JUndefined JUndefined)))
         (run [Set ''a'' (JNum 5) True, Set ''b'' (JNum 6) True]
            (removeSubscriber ''a'' 1
               (run [Subscribe ''a'' 1, Subscribe ''b'' 2] (create JUndefined JUndefined))))))
   \<and> ''a'' \<notin> fst ` set (subscribers
         (removeSubscriber ''a'' 1
            (run [Subscribe ''a'' 1, Subscribe ''b'' 2] (create JUndefined JUndefined))))
   \<and> emitted
         (removeSubscriber ''a'' 1
            (run [Subscribe ''a'' 1, Subscribe ''b'' 2] (create JUndefined JUndefined)))
         (run [Set ''a'' (JNum 5) True, Set ''b'' (JNum 6) True]
            (removeSubscriber ''a'' 1
               (run [Subscribe ''a'' 1, Subscribe ''b'' 2] (create JUndefined JUndefined))))
       = [PathCall ''b'' 2]"
proof -
  have h1: "Subscribe q 1 \<notin> set [Set ''a'' (JNum 5) True, Set ''b'' (JNum 6) True]" for q
    by simp
  have s: "subscribers (run [Subscribe ''a'' 1, Subscribe ''b'' 2] (create JUndefined JUndefined))
             = [(''a'', [1]), (''b'', [2])]"
    by code_simp
  have h2: "q \<noteq> ''a'' \<longrightarrow> 1 \<notin> set (registered (subscribers
          (run [Subscribe ''a'' 1, Subscribe ''b'' 2] (create JUndefined JUndefined))) q)" for q
    unfolding s by (simp add: registered_def)
  have h3: "set (registered (subscribers (run [Subscribe ''a'' 1, Subscribe ''b'' 2]
                  (create JUndefined JUndefined))) ''a'') \<subseteq> {1}"
    unfolding s by (simp add: registered_def)
  have e: "emitted
         (removeSubscriber ''a'' 1
            (run [Subscribe ''a'' 1, Subscribe ''b'' 2] (create JUndefined JUndefined)))
         (run [Set ''a'' (JNum 5) True, Set ''b'' (JNum 6) True]
            (removeSubscriber ''a'' 1
               (run [Subscribe ''a'' 1, Subscribe ''b'' 2] (create JUndefined JUndefined))))
       = [PathCall ''b'' 2]"
    by code_simp
  from unsubscribe_is_final[of "''a''" 1 "[Set ''a'' (JNum 5) True, Set ''b'' (JNum 6) True]"
        "[Subscribe ''a'' 1, Subscribe ''b'' 2]" JUndefined JUndefined] h1 h2 h3 e s
  show ?thesis by blast
qed

subsection \<open>Notification of ancestors and of descendants\<close>





subsection \<open>What reading and writing do when the containers are there\<close>

lemma getProp_defined:
  "x \<noteq> JUndefined \<Longrightarrow> x \<noteq> JNull \<Longrightarrow> \<exists>v. getProp x k = Inr v"
  by (cases x) simp_all

lemma walkParents_total: "\<exists>pr. walkParents ks p = Inr pr"
proof (induction ks arbitrary: p)
  case Nil
  show ?case by simp
next
  case (Cons k ks)
  show ?case
  proof (cases "parentProp p \<noteq> JUndefined \<and> parentProp p \<noteq> JNull")
    case False
    then show ?thesis by auto
  next
    case True
    obtain pp where pp: "getProp (parentProp p) k = Inr pp"
      using True getProp_defined by blast
    obtain fp where fp: "(if fallbackProp p \<noteq> JUndefined \<and> fallbackProp p \<noteq> JNull
                   then getProp (fallbackProp p) k else Inr (fallbackProp p)) = Inr fp"
      using getProp_defined[of "fallbackProp p" k] by (cases "fallbackProp p") auto
    obtain ip where ip: "(if initialProp p \<noteq> JUndefined \<and> initialProp p \<noteq> JNull
                   then getProp (initialProp p) k else Inr (initialProp p)) = Inr ip"
      using getProp_defined[of "initialProp p" k] by (cases "initialProp p") auto
    show ?thesis
      using True pp fp ip Cons.IH[of "\<lparr>parentProp = pp, fallbackProp = fp, initialProp = ip\<rparr>"]
      by simp
  qed
qed

lemma andProp_total: "\<exists>v. andProp c k = Inr v"
  by (cases c) (simp_all add: andProp_def)

text \<open>\<open>get\<close> never raises, in a store reached from its construction.\<close>

lemma get_never_raises: "\<exists>v. fst (get path (run ops (create i f))) = Inr v"
proof -
  let ?s = "run ops (create i f)"
  have e: "propertyCache ?s = []" by simp
  obtain pr where pr: "fst (getCachedProperty path False ?s) = Inr pr"
    using walkParents_total by (fastforce simp: getCachedProperty_fresh[OF e])
  obtain ov where ov: "andProp (parentProp pr) (currentKey (fst (getCachedPath path False ?s)))
                         = Inr ov"
    using andProp_total by blast
  obtain fv where fv: "andProp (fallbackProp pr) (currentKey (fst (getCachedPath path False ?s)))
                         = Inr fv"
    using andProp_total by blast
  show ?thesis
    unfolding get_fst pr using ov fv by simp
qed

lemma walkParents_undefined:
  "parentProp p = JUndefined \<Longrightarrow> walkParents ks p = Inr pr \<Longrightarrow> parentProp pr = JUndefined"
  by (cases ks) auto

lemma getProp_childOf:
  "x \<noteq> JUndefined \<Longrightarrow> x \<noteq> JNull \<Longrightarrow> getProp x k = Inr (childOf x k)"
  by (cases x) simp_all

lemma walkParents_step:
  assumes "d \<noteq> JUndefined" and "d \<noteq> JNull"
    and "(if fb \<noteq> JUndefined \<and> fb \<noteq> JNull then getProp fb k else Inr fb) = Inr fp"
    and "(if ini \<noteq> JUndefined \<and> ini \<noteq> JNull then getProp ini k else Inr ini) = Inr ip"
  shows "walkParents (k # ks) \<lparr>parentProp = d, fallbackProp = fb, initialProp = ini\<rparr> =
           walkParents ks \<lparr>parentProp = childOf d k, fallbackProp = fp, initialProp = ip\<rparr>"
  by (simp only: walkParents.simps propInfo.select_convs assms getProp_childOf[OF assms(1,2)]
        sum.case simp_thms if_True)

lemma walkParents_putAt:
  assumes "walkParents ks \<lparr>parentProp = d, fallbackProp = fb, initialProp = ini\<rparr> = Inr pr"
    and "parentProp pr = JObj kvs"
  shows "walkParents ks \<lparr>parentProp = putAt d ks c, fallbackProp = fb, initialProp = ini\<rparr>
           = Inr (pr\<lparr>parentProp := c\<rparr>)"
  using assms
proof (induction ks arbitrary: d fb ini)
  case Nil
  then show ?case by auto
next
  case (Cons k ks)
  obtain fp where fp: "(if fb \<noteq> JUndefined \<and> fb \<noteq> JNull
                   then getProp fb k else Inr fb) = Inr fp"
    using getProp_defined[of fb k] by (cases fb) auto
  obtain ip where ip: "(if ini \<noteq> JUndefined \<and> ini \<noteq> JNull
                   then getProp ini k else Inr ini) = Inr ip"
    using getProp_defined[of ini k] by (cases ini) auto
  have nn: "d \<noteq> JUndefined" "d \<noteq> JNull"
    using Cons.prems by auto
  have step: "walkParents (k # ks) \<lparr>parentProp = d, fallbackProp = fb, initialProp = ini\<rparr>
        = walkParents ks \<lparr>parentProp = childOf d k, fallbackProp = fp, initialProp = ip\<rparr>"
    by (rule walkParents_step[OF nn fp ip])
  then have old: "walkParents ks \<lparr>parentProp = childOf d k, fallbackProp = fp, initialProp = ip\<rparr>
               = Inr pr"
    using Cons.prems(1) by simp
  obtain dkvs where d: "d = JObj dkvs"
  proof (cases d)
    case (JObj x)
    then show ?thesis using that by simp
  qed (use nn old Cons.prems(2) walkParents_undefined[OF _ old] in auto)
  have "putAt d (k # ks) c \<noteq> JUndefined" "putAt d (k # ks) c \<noteq> JNull"
    by (simp_all add: d)
  from walkParents_step[OF this fp ip, of ks]
  have "walkParents (k # ks) \<lparr>parentProp = putAt d (k # ks) c, fallbackProp = fb, initialProp = ini\<rparr>
          = walkParents ks \<lparr>parentProp = putAt (childOf d k) ks c, fallbackProp = fp,
                              initialProp = ip\<rparr>"
    by (simp add: d update_conv' del: walkParents.simps)
  then show ?case
    using Cons.IH[OF old Cons.prems(2)] by simp
qed

text \<open>
  A \<open>set\<close> whose parent container is an object returns normally, and the following
  \<open>get\<close> of the same path returns the value written, unless that value is \<open>undefined\<close>.
\<close>

lemma set_op_returns_on_object_parent:
  assumes "fst (getCachedProperty P False s) = Inr pr" and "parentProp pr = JObj kvs"
  shows "fst (set_op P v notify s) = Inr ()"
  using assms by (simp add: set_op_eq)

lemma set_then_get_object_parent:
  assumes "s = run ops (create i f)"
    and "fst (getCachedProperty P False s) = Inr pr" and "parentProp pr = JObj kvs"
    and "v \<noteq> JUndefined"
  shows "fst (get P (snd (set_op P v notify s))) = Inr v"
proof -
  let ?pi = "parsePath P"
  let ?c = "JObj (AList.update (currentKey ?pi) v kvs)"
  let ?s' = "snd (set_op P v notify s)"
  have ok: "pathsOk (pathCache s)" and e: "propertyCache s = []"
    using assms(1) reachable_cachesOk(1) by simp_all
  have pi: "fst (getCachedPath P False s) = ?pi"
    by (rule getCachedPath_fst[OF ok])
  have walk: "walkParents (parentKeys ?pi)
                \<lparr>parentProp = data s, fallbackProp = fallbackData s, initialProp = initialData s\<rparr>
              = Inr pr"
    using assms(2) by (simp add: getCachedProperty_fresh[OF e] pi)
  have d': "data ?s' = putAt (data s) (parentKeys ?pi) ?c"
    using assms(2,3) by (simp add: set_op_eq pi)
  have ok': "pathsOk (pathCache ?s')"
    using ok by (simp add: getCachedPath_pathsOk)
  have e': "propertyCache ?s' = []"
    using e step_fields(1)[of "Set P v notify" s] by simp
  have f': "fallbackData ?s' = fallbackData s" "initialData ?s' = initialData s"
    using step_fields(2,3)[of "Set P v notify" s] by simp_all
  have "fst (getCachedProperty P False ?s') = Inr (pr\<lparr>parentProp := ?c\<rparr>)"
    using walkParents_putAt[OF walk assms(3), of ?c]
    by (simp add: getCachedProperty_fresh[OF e'] getCachedPath_fst[OF ok'] d' f')
  then show ?thesis
    using assms(4) by (simp add: get_fst getCachedPath_fst[OF ok'] andProp_def update_conv')
qed

section \<open>Properties of the keyed-collection store\<close>

subsection \<open>Notification as a list of events\<close>

lemma notifySubscribers_map_eq:
  "notifySubscribers_map path s =
     s\<lparr>calls_map := calls_map s @ callsFor (subscribers_map s) [path]\<rparr>"
  by (simp add: notifySubscribers_map_def registered_def split: option.splits)

lemma foldl_notifySubscribers_map:
  "foldl (\<lambda>st p. notifySubscribers_map p st) s ps
     = s\<lparr>calls_map := calls_map s @ callsFor (subscribers_map s) ps\<rparr>"
proof (induction ps arbitrary: s)
  case Nil
  show ?case by simp
next
  case (Cons p ps)
  have "foldl (\<lambda>st p. notifySubscribers_map p st) s (p # ps)
          = foldl (\<lambda>st p. notifySubscribers_map p st) (notifySubscribers_map p s) ps"
    by simp
  also have "\<dots> = (notifySubscribers_map p s)
        \<lparr>calls_map := calls_map (notifySubscribers_map p s)
            @ callsFor (subscribers_map (notifySubscribers_map p s)) ps\<rparr>"
    by (rule Cons.IH)
  also have "\<dots> = s\<lparr>calls_map := calls_map s @ callsFor (subscribers_map s) (p # ps)\<rparr>"
    by (simp add: notifySubscribers_map_eq)
  finally show ?case .
qed

lemma getCachedPath_map_idem:
  "getCachedPath_map path False (snd (getCachedPath_map path False s))
     = getCachedPath_map path False s"
  by (auto simp: getCachedPath_map_def Let_def update_conv' split: option.splits)

lemma getCachedPath_map_frame [simp]:
  "data_map (snd (getCachedPath_map path flush s)) = data_map s"
  "initialData_map (snd (getCachedPath_map path flush s)) = initialData_map s"
  "fallbackData_map (snd (getCachedPath_map path flush s)) = fallbackData_map s"
  "propertyCache_map (snd (getCachedPath_map path flush s)) = propertyCache_map s"
  "subscribers_map (snd (getCachedPath_map path flush s)) = subscribers_map s"
  "keysSubscribers (snd (getCachedPath_map path flush s)) = keysSubscribers s"
  "sizeSubscribers (snd (getCachedPath_map path flush s)) = sizeSubscribers s"
  "cachedKeys (snd (getCachedPath_map path flush s)) = cachedKeys s"
  "calls_map (snd (getCachedPath_map path flush s)) = calls_map s"
  by (auto simp: getCachedPath_map_def Let_def split: option.splits)

lemma getCachedPath_map_calls_update:
  "getCachedPath_map path flush (s\<lparr>calls_map := c\<rparr>)
     = (fst (getCachedPath_map path flush s),
        (snd (getCachedPath_map path flush s))\<lparr>calls_map := c\<rparr>)"
  by (simp add: getCachedPath_map_def Let_def split: option.splits)

lemma getCachedPath_map_data_update:
  "getCachedPath_map path flush (s\<lparr>data_map := d\<rparr>)
     = (fst (getCachedPath_map path flush s),
        (snd (getCachedPath_map path flush s))\<lparr>data_map := d\<rparr>)"
  by (simp add: getCachedPath_map_def Let_def split: option.splits)

lemma getCachedProperty_map_snd:
  "snd (getCachedProperty_map path flush s) = s
   \<or> snd (getCachedProperty_map path flush s) = snd (getCachedPath_map path False s)"
  by (auto simp: getCachedProperty_map_def Let_def split: option.splits prod.splits)

lemma getCachedProperty_map_after_path:
  "getCachedProperty_map path False (snd (getCachedPath_map path False s)) =
     (fst (getCachedProperty_map path False s), snd (getCachedPath_map path False s))"
  by (auto simp: getCachedProperty_map_def getCachedPath_map_idem Let_def
           split: option.splits prod.splits)

lemma notifyNestedSubscribers_map_eq:
  "notifyNestedSubscribers_map path s =
     (snd (getCachedPath_map path False s))
       \<lparr>calls_map := calls_map s @ callsFor (subscribers_map s)
                   (path # parentPaths_map (fst (getCachedPath_map path False s)))\<rparr>"
  unfolding notifyNestedSubscribers_map_def Let_def case_prod_beta foldl_notifySubscribers_map
  by (simp add: notifySubscribers_map_eq)

lemma notifyDependencies_map_eq:
  "notifyDependencies_map path s =
     s\<lparr>calls_map := calls_map s
          @ callsFor (subscribers_map s) (dependenciesOf (dependencyCache_map s) path)\<rparr>"
  unfolding notifyDependencies_map_def dependenciesOf_def foldl_notifySubscribers_map
  by (simp split: option.splits)

lemma notifyMutation_map_eq:
  "notifyMutation_map notify path s =
     (if notify
      then (snd (getCachedPath_map path False s))
             \<lparr>calls_map := calls_map s
                @ callsFor (subscribers_map s)
                    (path # parentPaths_map (fst (getCachedPath_map path False s)))
                @ callsFor (subscribers_map s)
                    (dependenciesOf (dependencyCache_map (snd (getCachedPath_map path False s)))
                       path)\<rparr>
      else s)"
  by (simp add: notifyMutation_map_def notifyNestedSubscribers_map_eq notifyDependencies_map_eq)

lemma notifyMutation_map_fields [simp]:
  "data_map (notifyMutation_map notify path s) = data_map s"
  "initialData_map (notifyMutation_map notify path s) = initialData_map s"
  "fallbackData_map (notifyMutation_map notify path s) = fallbackData_map s"
  "propertyCache_map (notifyMutation_map notify path s) = propertyCache_map s"
  "subscribers_map (notifyMutation_map notify path s) = subscribers_map s"
  "keysSubscribers (notifyMutation_map notify path s) = keysSubscribers s"
  "sizeSubscribers (notifyMutation_map notify path s) = sizeSubscribers s"
  "cachedKeys (notifyMutation_map notify path s) = cachedKeys s"
  by (simp_all add: notifyMutation_map_eq)

lemma notifyMutation_map_calls:
  "\<exists>evs. calls_map (notifyMutation_map notify path s) = calls_map s @ evs
         \<and> (\<forall>e\<in>set evs. registeredEvent (subscribers_map s) e)
         \<and> (\<not> notify \<longrightarrow> evs = [])"
  by (auto simp: notifyMutation_map_eq registeredEvent_def in_callsFor)

lemma notifyCountSubscribers_fields [simp]:
  "data_map (notifyCountSubscribers s) = data_map s"
  "initialData_map (notifyCountSubscribers s) = initialData_map s"
  "fallbackData_map (notifyCountSubscribers s) = fallbackData_map s"
  "propertyCache_map (notifyCountSubscribers s) = propertyCache_map s"
  "pathCache_map (notifyCountSubscribers s) = pathCache_map s"
  "dependencyCache_map (notifyCountSubscribers s) = dependencyCache_map s"
  "subscribers_map (notifyCountSubscribers s) = subscribers_map s"
  "keysSubscribers (notifyCountSubscribers s) = keysSubscribers s"
  "sizeSubscribers (notifyCountSubscribers s) = sizeSubscribers s"
  "cachedKeys (notifyCountSubscribers s) = map fst (data_map s)"
  "calls_map (notifyCountSubscribers s) =
     calls_map s @ map KeysCall (keysSubscribers s) @ map SizeCall (sizeSubscribers s)"
  by (simp_all add: notifyCountSubscribers_def)

subsection \<open>Adding and removing keys\<close>

lemma set_map_data [simp]:
  "data_map (set_map k v notify s) = AList.update k v (data_map s)"
  "keysSubscribers (set_map k v notify s) = keysSubscribers s"
  "sizeSubscribers (set_map k v notify s) = sizeSubscribers s"
  "subscribers_map (set_map k v notify s) = subscribers_map s"
  "propertyCache_map (set_map k v notify s) = propertyCache_map s"
  "initialData_map (set_map k v notify s) = initialData_map s"
  "fallbackData_map (set_map k v notify s) = fallbackData_map s"
  by (simp_all add: set_map_def Let_def)

lemma set_map_cachedKeys:
  "cachedKeys (set_map k v notify s) =
     (if mapHas (data_map s) k then cachedKeys s else map fst (AList.update k v (data_map s)))"
  by (simp add: set_map_def Let_def)

lemma set_map_calls:
  "\<exists>evs. calls_map (set_map k v notify s) =
           calls_map s @ evs
           @ (if mapHas (data_map s) k then []
              else map KeysCall (keysSubscribers s) @ map SizeCall (sizeSubscribers s))
         \<and> (\<forall>e\<in>set evs. registeredEvent (subscribers_map s) e)
         \<and> (\<not> notify \<longrightarrow> evs = [])"
  using notifyMutation_map_calls[of notify "getFullPath k []"
          "s\<lparr>data_map := AList.update k v (data_map s)\<rparr>"]
  by (auto simp: set_map_def Let_def)

lemma registeredEvent_path: "registeredEvent subs e \<Longrightarrow> \<exists>p cb. e = PathCall p cb"
  by (cases e) (simp_all add: registeredEvent_def)

lemma mapHas_keys: "mapHas m k \<longleftrightarrow> k \<in> set (map fst m)"
  by (simp add: mapHas_def map_of_eq_None_iff)

text \<open>
  C7. The scenario on the collection constructed empty: after \<open>key("k1").set({v: 1})\<close>
  the keys are \<open>["k1"]\<close> and the size is 1, and after \<open>key("k1").remove()\<close> the size is
  0. In any store, \<open>set\<close> on an absent key invokes every key-list and every size
  subscriber and refreshes the cached key list; \<open>set\<close> on a present key invokes none of
  them and leaves the keys and the cached key list as they are; \<open>remove\<close> on an absent
  key leaves the store unchanged.
\<close>

theorem keyed_set_and_remove:
  "getKeys (set_map ''k1'' (JObj [(''v'', JNum 1)]) True (create_map None JUndefined)) = [''k1'']
   \<and> getSize (set_map ''k1'' (JObj [(''v'', JNum 1)]) True (create_map None JUndefined)) = 1
   \<and> getSize (remove_map ''k1'' True
        (set_map ''k1'' (JObj [(''v'', JNum 1)]) True (create_map None JUndefined))) = 0
   \<and> (\<not> mapHas (data_map s) k \<longrightarrow>
        (\<forall>cb\<in>set (keysSubscribers s). KeysCall cb \<in> set (emitted_map s (set_map k v notify s)))
      \<and> (\<forall>cb\<in>set (sizeSubscribers s). SizeCall cb \<in> set (emitted_map s (set_map k v notify s)))
      \<and> getKeys (set_map k v notify s) = getKeys s @ [k]
      \<and> cachedKeys (set_map k v notify s) = getKeys (set_map k v notify s))
   \<and> (mapHas (data_map s) k \<longrightarrow>
        (\<forall>cb. KeysCall cb \<notin> set (emitted_map s (set_map k v notify s))
            \<and> SizeCall cb \<notin> set (emitted_map s (set_map k v notify s)))
      \<and> getKeys (set_map k v notify s) = getKeys s
      \<and> cachedKeys (set_map k v notify s) = cachedKeys s)
   \<and> (\<not> mapHas (data_map s) k \<longrightarrow> remove_map k notify s = s)"
proof -
  have scenario:
    "getKeys (set_map ''k1'' (JObj [(''v'', JNum 1)]) True (create_map None JUndefined)) = [''k1'']"
    "getSize (set_map ''k1'' (JObj [(''v'', JNum 1)]) True (create_map None JUndefined)) = 1"
    "getSize (remove_map ''k1'' True
        (set_map ''k1'' (JObj [(''v'', JNum 1)]) True (create_map None JUndefined))) = 0"
    by code_simp+
  obtain evs where evs:
    "calls_map (set_map k v notify s) =
           calls_map s @ evs
           @ (if mapHas (data_map s) k then []
              else map KeysCall (keysSubscribers s) @ map SizeCall (sizeSubscribers s))"
    "\<forall>e\<in>set evs. registeredEvent (subscribers_map s) e"
    using set_map_calls[of k v notify s] by blast
  have paths: "KeysCall cb \<notin> set evs \<and> SizeCall cb \<notin> set evs" for cb
    using evs(2) registeredEvent_path by fastforce
  have absent: "(\<forall>cb\<in>set (keysSubscribers s). KeysCall cb \<in> set (emitted_map s (set_map k v notify s)))
      \<and> (\<forall>cb\<in>set (sizeSubscribers s). SizeCall cb \<in> set (emitted_map s (set_map k v notify s)))
      \<and> getKeys (set_map k v notify s) = getKeys s @ [k]
      \<and> cachedKeys (set_map k v notify s) = getKeys (set_map k v notify s)"
    if "\<not> mapHas (data_map s) k"
    using that evs(1)
    by (auto simp: emitted_map_def getKeys_def set_map_cachedKeys update_keys mapHas_keys)
  have present: "(\<forall>cb. KeysCall cb \<notin> set (emitted_map s (set_map k v notify s))
            \<and> SizeCall cb \<notin> set (emitted_map s (set_map k v notify s)))
      \<and> getKeys (set_map k v notify s) = getKeys s
      \<and> cachedKeys (set_map k v notify s) = cachedKeys s"
    if "mapHas (data_map s) k"
    using that evs(1) paths
    by (auto simp: emitted_map_def getKeys_def set_map_cachedKeys update_keys mapHas_keys)
  have rem: "remove_map k notify s = s" if "\<not> mapHas (data_map s) k"
    using that by (simp add: remove_map_def)
  show ?thesis using scenario absent present rem by blast
qed

theorem keyed_set_and_remove_witness:
  "\<not> mapHas (data_map (run_map [UseKeys 1, UseSize 2, KeyUse ''k1'' [] 3]
                          (create_map None JUndefined))) ''k1''
   \<and> 1 \<in> set (keysSubscribers (run_map [UseKeys 1, UseSize 2, KeyUse ''k1'' [] 3]
                          (create_map None JUndefined)))
   \<and> 2 \<in> set (sizeSubscribers (run_map [UseKeys 1, UseSize 2, KeyUse ''k1'' [] 3]
                          (create_map None JUndefined)))
   \<and> KeysCall 1 \<in> set (emitted_map
         (run_map [UseKeys 1, UseSize 2, KeyUse ''k1'' [] 3] (create_map None JUndefined))
         (set_map ''k1'' (JObj [(''v'', JNum 1)]) True
            (run_map [UseKeys 1, UseSize 2, KeyUse ''k1'' [] 3] (create_map None JUndefined))))
   \<and> SizeCall 2 \<in> set (emitted_map
         (run_map [UseKeys 1, UseSize 2, KeyUse ''k1'' [] 3] (create_map None JUndefined))
         (set_map ''k1'' (JObj [(''v'', JNum 1)]) True
            (run_map [UseKeys 1, UseSize 2, KeyUse ''k1'' [] 3] (create_map None JUndefined))))
   \<and> remove_map ''k1'' True
         (run_map [UseKeys 1, UseSize 2, KeyUse ''k1'' [] 3] (create_map None JUndefined))
       = run_map [UseKeys 1, UseSize 2, KeyUse ''k1'' [] 3] (create_map None JUndefined)
   \<and> mapHas (data_map (run_map [UseKeys 1, UseSize 2, KeyUse ''k1'' [] 3, 
                                 KeySet ''k1'' (JObj [(''v'', JNum 1)]) True]
                          (create_map None JUndefined))) ''k1''
   \<and> emitted_map
         (run_map [UseKeys 1, UseSize 2, KeyUse ''k1'' [] 3,
                   KeySet ''k1'' (JObj [(''v'', JNum 1)]) True] (create_map None JUndefined))
         (set_map ''k1'' (JObj [(''v'', JNum 2)]) True
            (run_map [UseKeys 1, UseSize 2, KeyUse ''k1'' [] 3,
                      KeySet ''k1'' (JObj [(''v'', JNum 1)]) True] (create_map None JUndefined)))
       = [PathCall ''k1'' 3]
   \<and> KeysCall 1 \<notin> set (emitted_map
         (run_map [UseKeys 1, UseSize 2, KeyUse ''k1'' [] 3,
                   KeySet ''k1'' (JObj [(''v'', JNum 1)]) True] (create_map None JUndefined))
         (set_map ''k1'' (JObj [(''v'', JNum 2)]) True
            (run_map [UseKeys 1, UseSize 2, KeyUse ''k1'' [] 3,
                      KeySet ''k1'' (JObj [(''v'', JNum 1)]) True] (create_map None JUndefined))))"
proof -
  define s0 where "s0 = run_map [UseKeys 1, UseSize 2, KeyUse ''k1'' [] 3]
                          (create_map None JUndefined)"
  define s1 where "s1 = run_map [UseKeys 1, UseSize 2, KeyUse ''k1'' [] 3,
                                 KeySet ''k1'' (JObj [(''v'', JNum 1)]) True]
                          (create_map None JUndefined)"
  have a: "\<not> mapHas (data_map s0) ''k1''"
    "1 \<in> set (keysSubscribers s0)" "2 \<in> set (sizeSubscribers s0)"
    unfolding s0_def by code_simp+
  have p: "mapHas (data_map s1) ''k1''"
    unfolding s1_def by code_simp
  have e: "emitted_map s1 (set_map ''k1'' (JObj [(''v'', JNum 2)]) True s1) = [PathCall ''k1'' 3]"
    unfolding s1_def by code_simp
  have "\<not> mapHas (data_map s0) ''k1''
      \<and> 1 \<in> set (keysSubscribers s0) \<and> 2 \<in> set (sizeSubscribers s0)
      \<and> KeysCall 1 \<in> set (emitted_map s0 (set_map ''k1'' (JObj [(''v'', JNum 1)]) True s0))
      \<and> SizeCall 2 \<in> set (emitted_map s0 (set_map ''k1'' (JObj [(''v'', JNum 1)]) True s0))
      \<and> remove_map ''k1'' True s0 = s0
      \<and> mapHas (data_map s1) ''k1''
      \<and> emitted_map s1 (set_map ''k1'' (JObj [(''v'', JNum 2)]) True s1) = [PathCall ''k1'' 3]
      \<and> KeysCall 1 \<notin> set (emitted_map s1 (set_map ''k1'' (JObj [(''v'', JNum 2)]) True s1))"
    using keyed_set_and_remove[of s0 "''k1''" "JObj [(''v'', JNum 1)]" True]
      keyed_set_and_remove[of s1 "''k1''" "JObj [(''v'', JNum 2)]" True] a p e
    by blast
  then show ?thesis unfolding s0_def s1_def .
qed

text \<open>
  C10. \<open>set\<close> on an absent key with \<open>notify = false\<close> invokes every key-list
  subscriber and then every size subscriber, and nothing else: no subscriber of a path.
\<close>

theorem set_new_key_broadcasts_unnotified:
  assumes "\<not> mapHas (data_map s) k"
  shows "emitted_map s (set_map k v False s)
           = map KeysCall (keysSubscribers s) @ map SizeCall (sizeSubscribers s)"
  using assms set_map_calls[of k v False s]
  by (auto simp: emitted_map_def)

theorem set_new_key_broadcasts_unnotified_witness:
  "\<not> mapHas (data_map (run_map [UseKeys 1, UseSize 2, KeyUse ''k1'' [] 3]
                          (create_map None JUndefined))) ''k1''
   \<and> emitted_map
         (run_map [UseKeys 1, UseSize 2, KeyUse ''k1'' [] 3] (create_map None JUndefined))
         (set_map ''k1'' (JObj [(''v'', JNum 1)]) False
            (run_map [UseKeys 1, UseSize 2, KeyUse ''k1'' [] 3] (create_map None JUndefined)))
       = [KeysCall 1, SizeCall 2]"
proof -
  define s0 where "s0 = run_map [UseKeys 1, UseSize 2, KeyUse ''k1'' [] 3]
                          (create_map None JUndefined)"
  have a: "\<not> mapHas (data_map s0) ''k1''"
    unfolding s0_def by code_simp
  have k: "keysSubscribers s0 = [1]" "sizeSubscribers s0 = [2]"
    unfolding s0_def by code_simp+
  have "\<not> mapHas (data_map s0) ''k1''
      \<and> emitted_map s0 (set_map ''k1'' (JObj [(''v'', JNum 1)]) False s0)
          = [KeysCall 1, SizeCall 2]"
    using set_new_key_broadcasts_unnotified[OF a, of "JObj [(''v'', JNum 1)]"] a k by simp
  then show ?thesis unfolding s0_def .
qed

subsection \<open>The property caches\<close>

lemma getCachedProperty_map_frame [simp]:
  "propertyCache_map (snd (getCachedProperty_map path flush s)) = propertyCache_map s"
  using getCachedProperty_map_snd[of path flush s] by auto

lemma notifyAllPaths_map_eq:
  "notifyAllPaths_map s =
     s\<lparr>calls_map := calls_map s @ callsFor (subscribers_map s) (map fst (subscribers_map s))\<rparr>"
  by (simp add: notifyAllPaths_map_def foldl_notifySubscribers_map)

lemma step_map_propertyCache [simp]:
  "propertyCache_map (step_map c s) = propertyCache_map s"
proof (cases c)
  case (KeyGet k path)
  then show ?thesis
    by (simp add: get_map_def Let_def case_prod_beta split: sum.splits)
next
  case (KeyUpdate k path u notify)
  then show ?thesis
    by (simp add: update_map_def Let_def case_prod_beta split: sum.splits)
next
  case (KeyRemove k notify)
  then show ?thesis by (simp add: remove_map_def Let_def)
next
  case (ResetMap notify)
  then show ?thesis by (simp add: reset_map_def Let_def notifyAllPaths_map_eq)
next
  case (ClearMap notify)
  then show ?thesis by (simp add: clear_map_def Let_def notifyAllPaths_map_eq)
next
  case (KeyUse k path cb)
  then show ?thesis by (simp add: subscribe_map_def Let_def split: option.splits)
next
  case (KeyUnuse k path cb)
  then show ?thesis by (simp add: unsubscribe_map_def Let_def split: option.splits)
qed simp_all

lemma run_map_propertyCache [simp]:
  "propertyCache_map (run_map cs s) = propertyCache_map s"
  unfolding run_map_def by (induction cs arbitrary: s) simp_all

lemma create_map_propertyCache [simp]: "propertyCache_map (create_map i f) = []"
  by (simp add: create_map_def)

lemma getCachedProperty_map_fresh:
  "propertyCache_map s = [] \<Longrightarrow>
   getCachedProperty_map path flush s =
     (walkParents (parentKeys_map (fst (getCachedPath_map path False s)))
        \<lparr> parentProp = mapGet (data_map s) (mapKey (fst (getCachedPath_map path False s))),
          fallbackProp = fallbackData_map s,
          initialProp = mapGet (initialData_map s) (mapKey (fst (getCachedPath_map path False s))) \<rparr>,
      snd (getCachedPath_map path False s))"
  by (simp add: getCachedProperty_map_def Let_def case_prod_beta)

text \<open>
  C9. In both stores the property cache is empty after any calls that follow the
  construction, so the locator always walks the current trees: its result is the walk
  along the parent keys from the current state tree, fallback tree and initial snapshot
  (for the keyed collection, from the current entry of the map key). For instance a
  \<open>get\<close> right after a \<open>set\<close> that created the parent container returns the value written,
  and a \<open>get\<close> right after \<open>reset\<close> returns the initial value.
\<close>

theorem property_cache_stays_empty:
  "propertyCache (run ops (create i f)) = []
   \<and> getCachedProperty path flush (run ops (create i f)) =
       (walkParents (parentKeys (parsePath path))
          \<lparr> parentProp = data (run ops (create i f)),
            fallbackProp = fallbackData (run ops (create i f)),
            initialProp = initialData (run ops (create i f)) \<rparr>,
        snd (getCachedPath path False (run ops (create i f))))
   \<and> propertyCache_map (run_map mops (create_map mi mf)) = []
   \<and> getCachedProperty_map path flush (run_map mops (create_map mi mf)) =
       (walkParents
          (parentKeys_map (fst (getCachedPath_map path False (run_map mops (create_map mi mf)))))
          \<lparr> parentProp = mapGet (data_map (run_map mops (create_map mi mf)))
               (mapKey (fst (getCachedPath_map path False (run_map mops (create_map mi mf))))),
            fallbackProp = fallbackData_map (run_map mops (create_map mi mf)),
            initialProp = mapGet (initialData_map (run_map mops (create_map mi mf)))
               (mapKey (fst (getCachedPath_map path False (run_map mops (create_map mi mf))))) \<rparr>,
        snd (getCachedPath_map path False (run_map mops (create_map mi mf))))
   \<and> fst (get ''a.b'' (snd (set_op ''a.b'' (JNum 1) True (create (JObj []) JUndefined))))
       = Inr (JNum 1)
   \<and> fst (get ''a'' (reset True (snd (set_op ''a'' (JNum 1) True
          (create (JObj [(''a'', JNum 0)]) JUndefined)))))
       = Inr (JNum 0)"
proof -
  have e: "propertyCache (run ops (create i f)) = []"
    by simp
  have m: "propertyCache_map (run_map mops (create_map mi mf)) = []"
    by simp
  have ex: "fst (get ''a.b'' (snd (set_op ''a.b'' (JNum 1) True (create (JObj []) JUndefined))))
       = Inr (JNum 1)"
    "fst (get ''a'' (reset True (snd (set_op ''a'' (JNum 1) True
          (create (JObj [(''a'', JNum 0)]) JUndefined)))))
       = Inr (JNum 0)"
    by code_simp+
  show ?thesis
    using getCachedProperty_fresh[OF e, of path flush]
      getCachedProperty_map_fresh[OF m, of path flush]
      getCachedPath_fst[OF reachable_cachesOk(1), of path False ops i f] e m ex
    by simp
qed

section \<open>Properties of the store over a heap\<close>

subsection \<open>Values, cells and sets of addresses\<close>

lemma refsIn_simps [simp]:
  "refsIn A HUndefined" "refsIn A HNull" "refsIn A (HBool b)" "refsIn A (HNum n)"
  "refsIn A (HStr s)" "refsIn A (HRef a) \<longleftrightarrow> a \<in> A"
  by (simp_all add: refsIn_def)

lemma refsIn_mono: "refsIn A v \<Longrightarrow> A \<subseteq> B \<Longrightarrow> refsIn B v"
  by (cases v) auto

lemma cellsIn_Nil [simp]: "cellsIn A []"
  by (simp add: cellsIn_def)

lemma cellsIn_append [simp]: "cellsIn A (cs @ ds) \<longleftrightarrow> cellsIn A cs \<and> cellsIn A ds"
  by (auto simp: cellsIn_def)

lemma cellsIn_mono: "cellsIn A cs \<Longrightarrow> A \<subseteq> B \<Longrightarrow> cellsIn B cs"
  unfolding cellsIn_def using refsIn_mono by blast

lemma keeps_refl [simp]: "keeps A h h"
  by (simp add: keeps_def)

lemma keeps_trans: "keeps A h h1 \<Longrightarrow> keeps A h1 h2 \<Longrightarrow> keeps A h h2"
  by (auto simp: keeps_def)

lemma map_of_refsIn:
  "\<forall>e\<in>set c. refsIn A (snd e) \<Longrightarrow> refsIn A (case map_of c k of None \<Rightarrow> HUndefined | Some v \<Rightarrow> v)"
  by (auto split: option.splits dest!: map_of_SomeD)

lemma sealed_cell:
  "sealed A h \<Longrightarrow> a \<notin> A \<Longrightarrow> e \<in> set (cell h a) \<Longrightarrow> refsIn (- A) (snd e)"
  by (cases "a < length h") (simp_all add: sealed_def cell_def)

lemma getPropH_refsIn:
  assumes "sealed A h" and "refsIn (- A) p" and "getPropH h p k = Inr v"
  shows "refsIn (- A) v"
proof (cases p)
  case (HRef a)
  have "\<forall>e\<in>set (cell h a). refsIn (- A) (snd e)"
    using sealed_cell[OF assms(1), of a] assms(2) HRef by simp
  then show ?thesis
    using assms(3) HRef map_of_refsIn[of "cell h a" "- A" k] by auto
qed (use assms(3) in auto)

lemma update_refsIn:
  "\<forall>e\<in>set c. refsIn A (snd e) \<Longrightarrow> refsIn A v \<Longrightarrow> \<forall>e\<in>set (AList.update k v c). refsIn A (snd e)"
  using set_update_subset[of k v c] by auto

lemma delete_refsIn:
  "\<forall>e\<in>set c. refsIn A (snd e) \<Longrightarrow> \<forall>e\<in>set (AList.delete k c). refsIn A (snd e)"
  using set_delete_subset[of k c] by auto

lemma sealed_list_update:
  assumes "sealed A h" and "a \<notin> A" and "\<forall>e\<in>set c. refsIn (- A) (snd e)"
  shows "sealed A (h[a := c]) \<and> keeps A h (h[a := c])"
proof -
  have "refsIn (- A) (snd e)" if "b < length h" "b \<notin> A" "e \<in> set (h[a := c] ! b)" for b e
  proof (cases "b = a")
    case True
    then show ?thesis using that assms(3) by simp
  next
    case False
    then have "e \<in> set (cell h b)" using that by (simp add: cell_def)
    then show ?thesis using sealed_cell[OF assms(1) that(2)] by blast
  qed
  moreover have "A \<subseteq> {..<length (h[a := c])}" using assms(1) by (simp add: sealed_def)
  moreover have "h[a := c] ! b = h ! b" if "b \<in> A" for b
    using that assms(2) by (cases "b = a") simp_all
  ultimately show ?thesis unfolding sealed_def keeps_def by simp
qed

lemma setPropH_sealed:
  assumes "sealed A h" and "refsIn (- A) p" and "refsIn (- A) v" and "setPropH h p k v = Inr h'"
  shows "sealed A h' \<and> keeps A h h'"
proof (cases p)
  case (HRef a)
  have c: "\<forall>e\<in>set (cell h a). refsIn (- A) (snd e)"
    using sealed_cell[OF assms(1), of a] assms(2) HRef by simp
  show ?thesis
    using sealed_list_update[OF assms(1), of a "AList.update k v (cell h a)"]
      update_refsIn[OF c assms(3), of k] assms(2,4) HRef by auto
qed (use assms(4) in auto)

lemma deletePropH_sealed:
  assumes "sealed A h" and "refsIn (- A) p" and "deletePropH h p k = Inr h'"
  shows "sealed A h' \<and> keeps A h h'"
proof (cases p)
  case (HRef a)
  have c: "\<forall>e\<in>set (cell h a). refsIn (- A) (snd e)"
    using sealed_cell[OF assms(1), of a] assms(2) HRef by simp
  show ?thesis
    using sealed_list_update[OF assms(1), of a "AList.delete k (cell h a)"]
      delete_refsIn[OF c, of k] assms(2,3) HRef by auto
qed (use assms(1,3) in auto)

text \<open>New cells that point to no address of \<open>A\<close>.\<close>

lemma sealed_append:
  assumes "sealed A h" and "cellsIn (- A) cs"
  shows "sealed A (h @ cs) \<and> keeps A h (h @ cs)"
proof -
  have "\<forall>e\<in>set ((h @ cs) ! a). refsIn (- A) (snd e)" if "a < length (h @ cs)" "a \<notin> A" for a
  proof (cases "a < length h")
    case True
    then show ?thesis using assms(1) that by (simp add: sealed_def nth_append)
  next
    case False
    then have "(h @ cs) ! a \<in> set cs" using that by (simp add: nth_append)
    then show ?thesis using assms(2) by (auto simp: cellsIn_def)
  qed
  moreover have "A \<subseteq> {..<length (h @ cs)}" using assms(1) by (auto simp: sealed_def)
  moreover have "keeps A h (h @ cs)"
    using assms(1) by (auto simp: keeps_def sealed_def nth_append)
  ultimately show ?thesis by (simp add: sealed_def)
qed

lemma fresh_cells_outside:
  assumes "sealed A h" and "cellsIn {length h..} cs"
  shows "cellsIn (- A) cs"
proof (rule cellsIn_mono[OF assms(2)])
  show "{length h..} \<subseteq> - A" using assms(1) by (auto simp: sealed_def)
qed

lemma fresh_ref_outside: "sealed A h \<Longrightarrow> refsIn {length h..} v \<Longrightarrow> refsIn (- A) v"
  by (rule refsIn_mono) (auto simp: sealed_def)

subsection \<open>Trees in the heap\<close>

lemma repr_truthy: "repr h v t \<Longrightarrow> truthyH v = truthy t"
  by (cases t; cases v) auto

lemma repr_agree:
  assumes "repr h v t" and "length h \<le> length h'" and "\<forall>a<length h. h' ! a = h ! a"
  shows "repr h' v t"
  using assms(1)
proof (induction t arbitrary: v)
  case (JObj kvs)
  then obtain a where a: "v = HRef a" "a < length h"
    and l: "list_all2 (\<lambda>e e'. fst e = fst e' \<and> repr h (snd e) (snd e')) (h ! a) kvs"
    by (cases v) auto
  have "list_all2 (\<lambda>e e'. fst e = fst e' \<and> repr h' (snd e) (snd e')) (h ! a) kvs"
    using l
  proof (rule list.rel_mono_strong)
    fix e e'
    assume "e' \<in> set kvs" and "fst e = fst e' \<and> repr h (snd e) (snd e')"
    then show "fst e = fst e' \<and> repr h' (snd e) (snd e')"
      using JObj.IH[of e' "snd e'" "snd e"] snd_in_snds[of e'] by simp
  qed
  then show ?case using a assms(2,3) by simp
qed (simp_all)

lemma repr_append: "repr h v t \<Longrightarrow> repr (h @ cs) v t"
  by (rule repr_agree) (auto simp: nth_append)

text \<open>A tree that lies in a closed set of addresses stays when the cells of the set do.\<close>

lemma repr_kept:
  assumes "repr h v t" and "refsIn A v" and "closedIn A h" and "keeps A h h'"
  shows "repr h' v t"
  using assms(1,2)
proof (induction t arbitrary: v)
  case (JObj kvs)
  then obtain a where a: "v = HRef a" "a < length h" "a \<in> A"
    and l: "list_all2 (\<lambda>e e'. fst e = fst e' \<and> repr h (snd e) (snd e')) (h ! a) kvs"
    by (cases v) auto
  have "list_all2 (\<lambda>e e'. fst e = fst e' \<and> repr h' (snd e) (snd e')) (h ! a) kvs"
    using l
  proof (rule list.rel_mono_strong)
    fix e e'
    assume e: "e \<in> set (h ! a)" and "e' \<in> set kvs"
      and "fst e = fst e' \<and> repr h (snd e) (snd e')"
    moreover have "refsIn A (snd e)"
      using assms(3) a(3) e by (simp add: closedIn_def)
    ultimately show "fst e = fst e' \<and> repr h' (snd e) (snd e')"
      using JObj.IH[of e' "snd e'" "snd e"] snd_in_snds[of e'] by simp
  qed
  moreover have "h' ! a = h ! a" "a < length h'"
    using assms(4) a by (auto simp: keeps_def)
  ultimately show ?case using a by simp
qed (simp_all)

subsection \<open>Allocating a literal\<close>

lemma alloc_fresh:
  "allocVal h t = (v, h') \<Longrightarrow>
     \<exists>cs. h' = h @ cs \<and> repr h' v t \<and> refsIn {length h..<length h'} v
          \<and> cellsIn {length h..<length h'} cs"
  "allocEntries h kvs = (es, h') \<Longrightarrow>
     \<exists>cs. h' = h @ cs
          \<and> list_all2 (\<lambda>e e'. fst e = fst e' \<and> repr h' (snd e) (snd e')) es kvs
          \<and> (\<forall>e\<in>set es. refsIn {length h..<length h'} (snd e))
          \<and> cellsIn {length h..<length h'} cs"
proof (induction h t and h kvs arbitrary: v h' and es h' rule: allocVal_allocEntries.induct)
  case (6 h kvs)
  obtain es h1 where e: "allocEntries h kvs = (es, h1)" by (cases "allocEntries h kvs")
  from "6.IH"[OF e] obtain cs where cs: "h1 = h @ cs"
      "list_all2 (\<lambda>e e'. fst e = fst e' \<and> repr h1 (snd e) (snd e')) es kvs"
      "\<forall>e\<in>set es. refsIn {length h..<length h1} (snd e)"
      "cellsIn {length h..<length h1} cs"
    by blast
  have v: "v = HRef (length h1)" "h' = h1 @ [es]"
    using "6.prems" e by simp_all
  have "list_all2 (\<lambda>e e'. fst e = fst e' \<and> repr h' (snd e) (snd e')) es kvs"
    using cs(2) by (rule list.rel_mono_strong) (simp add: v repr_append)
  then have r: "repr h' v (JObj kvs)" by (simp add: v)
  have "cellsIn {length h..<length h'} (cs @ [es])"
    using cs(3,4) refsIn_mono[of "{length h..<length h1}" _ "{length h..<length h'}"]
      cellsIn_mono[of "{length h..<length h1}" cs "{length h..<length h'}"]
    by (auto simp: v cellsIn_def)
  then show ?case using r by (intro exI[of _ "cs @ [es]"]) (simp add: v cs(1))
next
  case (7 h)
  then show ?case by simp
next
  case (8 h e rest)
  obtain v1 h1 where a1: "allocVal h (snd e) = (v1, h1)" by (cases "allocVal h (snd e)")
  obtain es2 h2 where a2: "allocEntries h1 rest = (es2, h2)" by (cases "allocEntries h1 rest")
  from "8.IH"(1)[OF a1] obtain cs1 where cs1: "h1 = h @ cs1" "repr h1 v1 (snd e)"
      "refsIn {length h..<length h1} v1" "cellsIn {length h..<length h1} cs1"
    by blast
  from "8.IH"(2)[OF a1[symmetric] refl a2] obtain cs2 where cs2: "h2 = h1 @ cs2"
      "list_all2 (\<lambda>e e'. fst e = fst e' \<and> repr h2 (snd e) (snd e')) es2 rest"
      "\<forall>e\<in>set es2. refsIn {length h1..<length h2} (snd e)"
      "cellsIn {length h1..<length h2} cs2"
    by blast
  have r: "es = (fst e, v1) # es2" "h' = h2"
    using "8.prems" a1 a2 by simp_all
  have "repr h2 v1 (snd e)" using cs1(2) by (simp add: cs2(1) repr_append)
  then have l: "list_all2 (\<lambda>e e'. fst e = fst e' \<and> repr h' (snd e) (snd e')) es (e # rest)"
    using cs2(2) by (simp add: r)
  have le: "length h \<le> length h1" "length h1 \<le> length h2"
    by (simp_all add: cs1(1) cs2(1))
  have "\<forall>x\<in>set es. refsIn {length h..<length h'} (snd x)"
    using cs1(3) cs2(3) le
      refsIn_mono[of "{length h..<length h1}" _ "{length h..<length h2}"]
      refsIn_mono[of "{length h1..<length h2}" _ "{length h..<length h2}"]
    by (auto simp: r)
  moreover have "cellsIn {length h..<length h'} (cs1 @ cs2)"
    using cs1(4) cs2(4) le
      cellsIn_mono[of "{length h..<length h1}" cs1 "{length h..<length h2}"]
      cellsIn_mono[of "{length h1..<length h2}" cs2 "{length h..<length h2}"]
    by (auto simp: r)
  ultimately show ?case using l by (intro exI[of _ "cs1 @ cs2"]) (simp add: r cs1(1) cs2(1))
qed (auto)

subsection \<open>deepClone on the heap\<close>

lemma cloneH_prim:
  "cloneH h (Inl HUndefined) = Some (Inl HUndefined, h)"
  "cloneH h (Inl HNull) = Some (Inl HNull, h)"
  "cloneH h (Inl (HBool b)) = Some (Inl (HBool b), h)"
  "cloneH h (Inl (HNum n)) = Some (Inl (HNum n), h)"
  "cloneH h (Inl (HStr s)) = Some (Inl (HStr s), h)"
  by (subst cloneH.simps, simp)+

lemma cloneH_ref:
  "cloneH h (Inl (HRef a)) =
     Option.bind (cloneH h (Inr (cell h a)))
       (\<lambda>r. case fst r of
              Inr es \<Rightarrow> Some (Inl (HRef (length (snd r))), snd r @ [fromEntriesH es])
            | Inl u \<Rightarrow> None)"
  by (subst cloneH.simps) simp

lemma cloneH_nil: "cloneH h (Inr []) = Some (Inr [], h)"
  by (subst cloneH.simps) simp

lemma cloneH_cons:
  "cloneH h (Inr (e # rest)) =
     Option.bind (cloneH h (Inl (snd e)))
       (\<lambda>r. case fst r of
              Inl v' \<Rightarrow>
                Option.bind (cloneH (snd r) (Inr rest))
                  (\<lambda>r2. case fst r2 of
                          Inr es \<Rightarrow> Some (Inr ((fst e, v') # es), snd r2)
                        | Inl u \<Rightarrow> None)
            | Inr u \<Rightarrow> None)"
  by (subst cloneH.simps) simp

lemma update_list_all2:
  assumes "list_all2 (\<lambda>e e'. fst e = fst e' \<and> R (snd e) (snd e')) acc acc'" and "R v v'"
  shows "list_all2 (\<lambda>e e'. fst e = fst e' \<and> R (snd e) (snd e'))
           (AList.update k v acc) (AList.update k v' acc')"
  using assms(1)
proof (induction acc acc' rule: list_all2_induct)
  case Nil
  then show ?case using assms(2) by simp
next
  case (Cons x xs y ys)
  then show ?case using assms(2) by (cases x; cases y) auto
qed

lemma foldl_update_list_all2:
  assumes "list_all2 (\<lambda>e e'. fst e = fst e' \<and> R (snd e) (snd e')) es es'"
    and "list_all2 (\<lambda>e e'. fst e = fst e' \<and> R (snd e) (snd e')) acc acc'"
  shows "list_all2 (\<lambda>e e'. fst e = fst e' \<and> R (snd e) (snd e'))
           (foldl (\<lambda>acc e. AList.update (fst e) (snd e) acc) acc es)
           (foldl (\<lambda>acc e. AList.update (fst e) (snd e) acc) acc' es')"
  using assms
proof (induction es es' arbitrary: acc acc' rule: list_all2_induct)
  case Nil
  then show ?case by simp
next
  case (Cons x xs y ys)
  have "list_all2 (\<lambda>e e'. fst e = fst e' \<and> R (snd e) (snd e'))
          (AList.update (fst x) (snd x) acc) (AList.update (fst y) (snd y) acc')"
    using update_list_all2[OF Cons.prems, of "snd x" "snd y" "fst x"] Cons.hyps(1) by simp
  from Cons.IH[OF this] show ?case by simp
qed

lemma fromEntries_list_all2:
  "list_all2 (\<lambda>e e'. fst e = fst e' \<and> R (snd e) (snd e')) es es' \<Longrightarrow>
   list_all2 (\<lambda>e e'. fst e = fst e' \<and> R (snd e) (snd e')) (fromEntriesH es) (fromEntries es')"
  unfolding fromEntriesH_def fromEntries_def by (rule foldl_update_list_all2) simp_all

lemma fromEntriesH_subset: "set (fromEntriesH es) \<subseteq> set es"
  using foldl_update_subset[of "[]" es] by (simp add: fromEntriesH_def)

text \<open>
  The clone of the entries of an object, when each value can be cloned: it returns, the
  old cells stay, and the clones lie in the new cells.
\<close>

lemma clone_entries:
  assumes IH: "\<And>e' h v. e' \<in> set kvs \<Longrightarrow> repr h v (snd e') \<Longrightarrow>
      \<exists>v' cs. cloneH h (Inl v) = Some (Inl v', h @ cs) \<and> repr (h @ cs) v' (deepClone (snd e'))
             \<and> refsIn {length h..<length h + length cs} v'
             \<and> cellsIn {length h..<length h + length cs} cs"
    and "list_all2 (\<lambda>e e'. fst e = fst e' \<and> repr h (snd e) (snd e')) es kvs"
  shows "\<exists>es' cs. cloneH h (Inr es) = Some (Inr es', h @ cs)
           \<and> list_all2 (\<lambda>e e'. fst e = fst e' \<and> repr (h @ cs) (snd e) (deepClone (snd e'))) es' kvs
           \<and> (\<forall>e\<in>set es'. refsIn {length h..<length h + length cs} (snd e))
           \<and> cellsIn {length h..<length h + length cs} cs"
  using assms
proof (induction kvs arbitrary: es h)
  case Nil
  then show ?case by (simp add: cloneH_nil)
next
  case (Cons e' rest')
  from Cons.prems(2) obtain e rest where es: "es = e # rest" "fst e = fst e'"
      "repr h (snd e) (snd e')"
      "list_all2 (\<lambda>e e'. fst e = fst e' \<and> repr h (snd e) (snd e')) rest rest'"
    by (auto simp: list_all2_Cons2)
  from Cons.prems(1)[of e' h "snd e"] es(3) obtain v' cs1 where
    c1: "cloneH h (Inl (snd e)) = Some (Inl v', h @ cs1)"
      "repr (h @ cs1) v' (deepClone (snd e'))"
      "refsIn {length h..<length h + length cs1} v'"
      "cellsIn {length h..<length h + length cs1} cs1"
    by auto
  have "list_all2 (\<lambda>e e'. fst e = fst e' \<and> repr (h @ cs1) (snd e) (snd e')) rest rest'"
    using es(4) by (rule list.rel_mono_strong) (simp add: repr_append)
  from Cons.IH[OF _ this] Cons.prems(1) obtain es2 cs2 where
    c2: "cloneH (h @ cs1) (Inr rest) = Some (Inr es2, (h @ cs1) @ cs2)"
      "list_all2 (\<lambda>e e'. fst e = fst e' \<and> repr ((h @ cs1) @ cs2) (snd e) (deepClone (snd e')))
         es2 rest'"
      "\<forall>e\<in>set es2. refsIn {length (h @ cs1)..<length (h @ cs1) + length cs2} (snd e)"
      "cellsIn {length (h @ cs1)..<length (h @ cs1) + length cs2} cs2"
    by (meson list.set_intros(2))
  let ?B = "{length h..<length h + length (cs1 @ cs2)}"
  have sub: "{length h..<length h + length cs1} \<subseteq> ?B"
      "{length (h @ cs1)..<length (h @ cs1) + length cs2} \<subseteq> ?B"
    by auto
  have "cloneH h (Inr es) = Some (Inr ((fst e, v') # es2), h @ (cs1 @ cs2))"
    by (simp add: es(1) cloneH_cons c1(1) c2(1))
  moreover have "repr (h @ (cs1 @ cs2)) v' (deepClone (snd e'))"
    using repr_append[OF c1(2), of cs2] by simp
  then have "list_all2 (\<lambda>e e'. fst e = fst e' \<and> repr (h @ (cs1 @ cs2)) (snd e) (deepClone (snd e')))
      ((fst e, v') # es2) (e' # rest')"
    using c2(2) es(2) by simp
  moreover have "\<forall>x\<in>set ((fst e, v') # es2). refsIn ?B (snd x)"
    using c1(3) c2(3) refsIn_mono[OF _ sub(1)] refsIn_mono[OF _ sub(2)] by auto
  moreover have "cellsIn ?B (cs1 @ cs2)"
    using cellsIn_mono[OF c1(4) sub(1)] cellsIn_mono[OF c2(4) sub(2)] by simp
  ultimately show ?case by blast
qed

lemma clone_repr:
  "repr h v t \<Longrightarrow>
   \<exists>v' cs. cloneH h (Inl v) = Some (Inl v', h @ cs) \<and> repr (h @ cs) v' (deepClone t)
          \<and> refsIn {length h..<length h + length cs} v'
          \<and> cellsIn {length h..<length h + length cs} cs"
proof (induction t arbitrary: h v)
  case (JObj kvs)
  then obtain a where a: "v = HRef a" "a < length h"
    and l: "list_all2 (\<lambda>e e'. fst e = fst e' \<and> repr h (snd e) (snd e')) (h ! a) kvs"
    by (cases v) auto
  have "\<exists>es' cs. cloneH h (Inr (h ! a)) = Some (Inr es', h @ cs)
           \<and> list_all2 (\<lambda>e e'. fst e = fst e' \<and> repr (h @ cs) (snd e) (deepClone (snd e'))) es' kvs
           \<and> (\<forall>e\<in>set es'. refsIn {length h..<length h + length cs} (snd e))
           \<and> cellsIn {length h..<length h + length cs} cs"
  proof (rule clone_entries[OF _ l])
    fix e' h v
    assume "e' \<in> set kvs" "repr h v (snd e')"
    then show "\<exists>v' cs. cloneH h (Inl v) = Some (Inl v', h @ cs)
        \<and> repr (h @ cs) v' (deepClone (snd e'))
        \<and> refsIn {length h..<length h + length cs} v'
        \<and> cellsIn {length h..<length h + length cs} cs"
      using JObj.IH[of e' "snd e'" h v] snd_in_snds[of e'] by simp
  qed
  then obtain es' cs where
    c: "cloneH h (Inr (h ! a)) = Some (Inr es', h @ cs)"
      "list_all2 (\<lambda>e e'. fst e = fst e' \<and> repr (h @ cs) (snd e) (deepClone (snd e'))) es' kvs"
      "\<forall>e\<in>set es'. refsIn {length h..<length h + length cs} (snd e)"
      "cellsIn {length h..<length h + length cs} cs"
    by blast
  let ?c = "fromEntriesH es'"
  let ?h' = "h @ (cs @ [?c])"
  let ?B = "{length h..<length h + length (cs @ [?c])}"
  have sub: "{length h..<length h + length cs} \<subseteq> ?B" by auto
  have 1: "cloneH h (Inl v) = Some (Inl (HRef (length (h @ cs))), ?h')"
    by (simp add: a cloneH_ref cell_def c(1))
  have "list_all2 (\<lambda>e e'. fst e = fst e' \<and> repr ?h' (snd e) (deepClone (snd e'))) es' kvs"
    using c(2) by (rule list.rel_mono_strong) (use repr_append[of "h @ cs" _ _ "[?c]"] in simp)
  then have "list_all2 (\<lambda>e e'. fst e = fst e' \<and> repr ?h' (snd e) (snd e'))
      es' (map (\<lambda>e. (fst e, deepClone (snd e))) kvs)"
    by (simp add: list_all2_map2)
  then have "list_all2 (\<lambda>e e'. fst e = fst e' \<and> repr ?h' (snd e) (snd e'))
      ?c (fromEntries (map (\<lambda>e. (fst e, deepClone (snd e))) kvs))"
    by (rule fromEntries_list_all2)
  then have 2: "repr ?h' (HRef (length (h @ cs))) (deepClone (JObj kvs))"
    by (simp add: nth_append)
  have 3: "refsIn ?B (HRef (length (h @ cs)))" by simp
  have "\<forall>e\<in>set ?c. refsIn ?B (snd e)"
    using c(3) fromEntriesH_subset[of es'] sub refsIn_mono by blast
  then have 4: "cellsIn ?B (cs @ [?c])"
    using c(4) sub cellsIn_mono[of _ cs ?B] by (auto simp: cellsIn_def)
  show ?case using 1 2 3 4 by blast
qed (auto simp: cloneH_prim intro!: exI[of _ "[]"])

lemma deepCloneH_repr:
  assumes "repr h v t"
  shows "\<exists>v' cs. deepCloneH h v = Some (v', h @ cs) \<and> repr (h @ cs) v' (deepClone t)
          \<and> refsIn {length h..<length h + length cs} v'
          \<and> cellsIn {length h..<length h + length cs} cs"
proof -
  from clone_repr[OF assms] obtain v' cs where
    "cloneH h (Inl v) = Some (Inl v', h @ cs)" "repr (h @ cs) v' (deepClone t)"
    "refsIn {length h..<length h + length cs} v'" "cellsIn {length h..<length h + length cs} cs"
    by blast
  then show ?thesis by (auto simp: deepCloneH_def)
qed

subsection \<open>Frame lemmas of the helpers\<close>

lemma getCachedPathH_frame [simp]:
  "heap (snd (getCachedPathH path flush s)) = heap s"
  "dataH (snd (getCachedPathH path flush s)) = dataH s"
  "initialDataH (snd (getCachedPathH path flush s)) = initialDataH s"
  "fallbackDataH (snd (getCachedPathH path flush s)) = fallbackDataH s"
  "propertyCacheH (snd (getCachedPathH path flush s)) = propertyCacheH s"
  "subscribersH (snd (getCachedPathH path flush s)) = subscribersH s"
  "callsH (snd (getCachedPathH path flush s)) = callsH s"
  by (auto simp: getCachedPathH_def Let_def split: option.splits)

lemma getCachedPathH_fst:
  "pathsOk (pathCacheH s) \<Longrightarrow> fst (getCachedPathH path flush s) = parsePath path"
  by (auto simp: getCachedPathH_def pathsOk_def Let_def split: option.splits)

lemma getCachedPathH_pathsOk:
  "pathsOk (pathCacheH s) \<Longrightarrow> pathsOk (pathCacheH (snd (getCachedPathH path flush s)))"
  by (auto simp: getCachedPathH_def pathsOk_def Let_def update_conv' split: option.splits if_splits)

lemma notifySubscribersH_frame [simp]:
  "heap (notifySubscribersH path s) = heap s"
  "dataH (notifySubscribersH path s) = dataH s"
  "initialDataH (notifySubscribersH path s) = initialDataH s"
  "fallbackDataH (notifySubscribersH path s) = fallbackDataH s"
  "propertyCacheH (notifySubscribersH path s) = propertyCacheH s"
  "pathCacheH (notifySubscribersH path s) = pathCacheH s"
  "dependencyCacheH (notifySubscribersH path s) = dependencyCacheH s"
  "subscribersH (notifySubscribersH path s) = subscribersH s"
  by (auto simp: notifySubscribersH_def split: option.splits)

lemma notifySubscribersH_calls:
  "callsH (notifySubscribersH path s) = callsH s @ callsFor (subscribersH s) [path]"
  by (simp add: notifySubscribersH_def registered_def split: option.splits)

lemma foldl_notifySubscribersH_frame [simp]:
  "heap (foldl (\<lambda>st p. notifySubscribersH p st) s ps) = heap s"
  "dataH (foldl (\<lambda>st p. notifySubscribersH p st) s ps) = dataH s"
  "initialDataH (foldl (\<lambda>st p. notifySubscribersH p st) s ps) = initialDataH s"
  "fallbackDataH (foldl (\<lambda>st p. notifySubscribersH p st) s ps) = fallbackDataH s"
  "propertyCacheH (foldl (\<lambda>st p. notifySubscribersH p st) s ps) = propertyCacheH s"
  "pathCacheH (foldl (\<lambda>st p. notifySubscribersH p st) s ps) = pathCacheH s"
  "dependencyCacheH (foldl (\<lambda>st p. notifySubscribersH p st) s ps) = dependencyCacheH s"
  "subscribersH (foldl (\<lambda>st p. notifySubscribersH p st) s ps) = subscribersH s"
  by (induction ps arbitrary: s) simp_all

lemma foldl_notifySubscribersH_calls:
  "callsH (foldl (\<lambda>st p. notifySubscribersH p st) s ps)
     = callsH s @ callsFor (subscribersH s) ps"
  by (induction ps arbitrary: s) (simp_all add: notifySubscribersH_calls)

lemma notifyNestedSubscribersH_frame [simp]:
  "heap (notifyNestedSubscribersH path s) = heap s"
  "dataH (notifyNestedSubscribersH path s) = dataH s"
  "initialDataH (notifyNestedSubscribersH path s) = initialDataH s"
  "fallbackDataH (notifyNestedSubscribersH path s) = fallbackDataH s"
  "propertyCacheH (notifyNestedSubscribersH path s) = propertyCacheH s"
  "subscribersH (notifyNestedSubscribersH path s) = subscribersH s"
  by (simp_all add: notifyNestedSubscribersH_def Let_def case_prod_beta)

lemma notifyNestedSubscribersH_pathsOk:
  "pathsOk (pathCacheH s) \<Longrightarrow> pathsOk (pathCacheH (notifyNestedSubscribersH path s))"
  using getCachedPathH_pathsOk[of "notifySubscribersH path s" path False]
  by (simp add: notifyNestedSubscribersH_def Let_def case_prod_beta)

lemma notifyDependenciesH_frame [simp]:
  "heap (notifyDependenciesH path s) = heap s"
  "dataH (notifyDependenciesH path s) = dataH s"
  "initialDataH (notifyDependenciesH path s) = initialDataH s"
  "fallbackDataH (notifyDependenciesH path s) = fallbackDataH s"
  "propertyCacheH (notifyDependenciesH path s) = propertyCacheH s"
  "pathCacheH (notifyDependenciesH path s) = pathCacheH s"
  "subscribersH (notifyDependenciesH path s) = subscribersH s"
  by (simp_all add: notifyDependenciesH_def split: option.splits)

lemma notifyMutationH_frame [simp]:
  "heap (notifyMutationH notify path s) = heap s"
  "dataH (notifyMutationH notify path s) = dataH s"
  "initialDataH (notifyMutationH notify path s) = initialDataH s"
  "fallbackDataH (notifyMutationH notify path s) = fallbackDataH s"
  "propertyCacheH (notifyMutationH notify path s) = propertyCacheH s"
  "subscribersH (notifyMutationH notify path s) = subscribersH s"
  by (simp_all add: notifyMutationH_def)

lemma notifyMutationH_pathsOk:
  "pathsOk (pathCacheH s) \<Longrightarrow> pathsOk (pathCacheH (notifyMutationH notify path s))"
  by (simp add: notifyMutationH_def notifyNestedSubscribersH_pathsOk)

lemma getCachedPropertyH_fresh:
  "propertyCacheH s = [] \<Longrightarrow>
   getCachedPropertyH path flush s =
     (walkParentsH (heap s) (parentKeys (fst (getCachedPathH path False s)))
        \<lparr> parentPropH = dataH s, fallbackPropH = fallbackDataH s,
          initialPropH = initialDataH s \<rparr>,
      snd (getCachedPathH path False s))"
  by (simp add: getCachedPropertyH_def Let_def case_prod_beta)

subsection \<open>What the store keeps to itself\<close>

lemma guards_frame:
  assumes "guards A s" and "heap s' = heap s" and "dataH s' = dataH s"
    and "fallbackDataH s' = fallbackDataH s" and "propertyCacheH s' = propertyCacheH s"
    and "pathsOk (pathCacheH s')"
  shows "guards A s'"
  using assms by (simp add: guards_def)

lemma frozen_refl [simp]: "frozen A s s"
  by (simp add: frozen_def)

lemma frozen_trans: "frozen A s s' \<Longrightarrow> frozen A s' s'' \<Longrightarrow> frozen A s s''"
  using keeps_trans by (auto simp: frozen_def)

lemma frozen_frame:
  "heap s' = heap s \<Longrightarrow> initialDataH s' = initialDataH s \<Longrightarrow> frozen A s s'"
  by (simp add: frozen_def)

lemma getPropH_total:
  "v \<noteq> HUndefined \<Longrightarrow> v \<noteq> HNull \<Longrightarrow> \<exists>x. getPropH h v k = Inr x"
  by (cases v) simp_all

text \<open>
  The walk of \<open>getCachedProperty\<close> returns, and the containers it finds for the state
  tree and for the fallback tree lie outside \<open>A\<close>.
\<close>

lemma walkParentsH_outside:
  assumes "sealed A h" and "refsIn (- A) (parentPropH p)" and "refsIn (- A) (fallbackPropH p)"
  shows "\<exists>p'. walkParentsH h ks p = Inr p' \<and> refsIn (- A) (parentPropH p')
           \<and> refsIn (- A) (fallbackPropH p')"
  using assms(2,3)
proof (induction ks arbitrary: p)
  case Nil
  then show ?case by simp
next
  case (Cons k ks)
  show ?case
  proof (cases "parentPropH p \<noteq> HUndefined \<and> parentPropH p \<noteq> HNull")
    case False
    then show ?thesis using Cons.prems by auto
  next
    case True
    obtain pp where pp: "getPropH h (parentPropH p) k = Inr pp"
      using True getPropH_total by blast
    obtain fp where fp: "(if fallbackPropH p \<noteq> HUndefined \<and> fallbackPropH p \<noteq> HNull
        then getPropH h (fallbackPropH p) k else Inr (fallbackPropH p)) = Inr fp"
      using getPropH_total[of "fallbackPropH p" h k] by (cases "fallbackPropH p") auto
    obtain ip where ip: "(if initialPropH p \<noteq> HUndefined \<and> initialPropH p \<noteq> HNull
        then getPropH h (initialPropH p) k else Inr (initialPropH p)) = Inr ip"
      using getPropH_total[of "initialPropH p" h k] by (cases "initialPropH p") auto
    have 1: "refsIn (- A) pp"
      using getPropH_refsIn[OF assms(1) Cons.prems(1) pp] .
    have 2: "refsIn (- A) fp"
      using fp Cons.prems(2) getPropH_refsIn[OF assms(1) Cons.prems(2)]
      by (auto split: if_splits)
    have "walkParentsH h (k # ks) p
            = walkParentsH h ks \<lparr>parentPropH = pp, fallbackPropH = fp, initialPropH = ip\<rparr>"
      using True by (simp only: walkParentsH.simps pp fp ip sum.case if_True simp_thms)
    then show ?thesis
      using Cons.IH[of "\<lparr>parentPropH = pp, fallbackPropH = fp, initialPropH = ip\<rparr>"] 1 2 by simp
  qed
qed

lemma andPropH_outside:
  assumes "sealed A h" and "refsIn (- A) c"
  shows "\<exists>v. andPropH h c k = Inr v \<and> refsIn (- A) v"
proof (cases "truthyH c")
  case True
  then have "c \<noteq> HUndefined" "c \<noteq> HNull" by auto
  then obtain v where "getPropH h c k = Inr v" using getPropH_total by blast
  then show ?thesis using True getPropH_refsIn[OF assms] by (auto simp: andPropH_def)
next
  case False
  then show ?thesis using assms(2) by (simp add: andPropH_def)
qed

text \<open>\<open>get\<close> returns, never a container of \<open>A\<close>, and changes the caches only.\<close>

lemma getH_guards:
  assumes "guards A s"
  shows "guards A (snd (getH path s)) \<and> frozen A s (snd (getH path s))
       \<and> (\<exists>v. fst (getH path s) = Inr v \<and> refsIn (- A) v)"
proof -
  let ?s1 = "snd (getCachedPathH path False s)"
  let ?s2 = "snd (getCachedPathH path False ?s1)"
  have g: "sealed A (heap s)" "refsIn (- A) (dataH s)" "refsIn (- A) (fallbackDataH s)"
      "propertyCacheH s = []" "pathsOk (pathCacheH s)"
    using assms by (simp_all add: guards_def)
  obtain p' where w: "walkParentsH (heap s) (parentKeys (fst (getCachedPathH path False ?s1)))
        \<lparr> parentPropH = dataH s, fallbackPropH = fallbackDataH s,
          initialPropH = initialDataH s \<rparr> = Inr p'"
      and p': "refsIn (- A) (parentPropH p')" "refsIn (- A) (fallbackPropH p')"
    using walkParentsH_outside[OF g(1), of "\<lparr> parentPropH = dataH s,
       fallbackPropH = fallbackDataH s, initialPropH = initialDataH s \<rparr>"] g(2,3)
    by (metis propInfoH.select_convs(1,2))
  have cp: "getCachedPropertyH path False ?s1 = (Inr p', ?s2)"
    using w g(4) by (simp add: getCachedPropertyH_fresh)
  let ?ck = "currentKey (fst (getCachedPathH path False s))"
  obtain ov where ov: "andPropH (heap s) (parentPropH p') ?ck = Inr ov" "refsIn (- A) ov"
    using andPropH_outside[OF g(1) p'(1)] by blast
  obtain fv where fv: "andPropH (heap s) (fallbackPropH p') ?ck = Inr fv" "refsIn (- A) fv"
    using andPropH_outside[OF g(1) p'(2)] by blast
  have r: "getH path s = (Inr (if ov \<noteq> HUndefined then ov else fv), ?s2)"
    by (simp add: getH_def Let_def case_prod_beta cp ov(1) fv(1))
  have ok: "pathsOk (pathCacheH ?s2)"
    using g(5) by (simp add: getCachedPathH_pathsOk)
  have "guards A ?s2"
    by (rule guards_frame[OF assms]) (simp_all add: ok)
  moreover have "frozen A s ?s2" by (simp add: frozen_frame)
  ultimately show ?thesis using r ov(2) fv(2) by auto
qed

lemma closedIn_keeps: "closedIn A h \<Longrightarrow> keeps A h h' \<Longrightarrow> closedIn A h'"
  by (auto simp: closedIn_def keeps_def)

lemma snapshot_frozen:
  assumes "snapshot A T s" and "frozen A s s'"
  shows "snapshot A T s'"
  using assms repr_kept[of "heap s" "initialDataH s" T A "heap s'"] closedIn_keeps[of A "heap s" "heap s'"]
  by (simp add: snapshot_def frozen_def)

subsection \<open>Writing\<close>

lemma sealed_new_cell:
  assumes "sealed A h"
  shows "sealed A (h @ [[]])" "keeps A h (h @ [[]])" "refsIn (- A) (HRef (length h))"
proof -
  have "cellsIn (- A) [[]]" by (simp add: cellsIn_def)
  from sealed_append[OF assms this] show "sealed A (h @ [[]])" "keeps A h (h @ [[]])"
    by simp_all
  show "refsIn (- A) (HRef (length h))"
    by (rule fresh_ref_outside[OF assms]) simp
qed

lemma materializeH_sealed:
  assumes "sealed A h" and "refsIn (- A) parent" and "refsIn (- A) v"
  shows "sealed A (snd (materializeH h parent ks ck v))
       \<and> keeps A h (snd (materializeH h parent ks ck v))"
  using assms(1,2)
proof (induction ks arbitrary: h parent)
  case Nil
  show ?case
  proof (cases "setPropH h parent ck v")
    case (Inl e)
    then show ?thesis using Nil by simp
  next
    case (Inr h1)
    then show ?thesis using setPropH_sealed[OF Nil assms(3) Inr] by simp
  qed
next
  case (Cons k ks)
  show ?case
  proof (cases "getPropH h parent k")
    case (Inl e)
    then show ?thesis using Cons.prems by simp
  next
    case child: (Inr child)
    let ?r = "if child = HUndefined
              then setPropH (h @ [[]]) parent k (HRef (length h)) else Inr h"
    show ?thesis
    proof (cases ?r)
      case (Inl e)
      then show ?thesis
        using child sealed_new_cell(1,2)[OF Cons.prems(1)] by (simp split: if_splits)
    next
      case (Inr h1)
      have h1: "sealed A h1 \<and> keeps A h h1"
      proof (cases "child = HUndefined")
        case True
        then have s: "setPropH (h @ [[]]) parent k (HRef (length h)) = Inr h1"
          using Inr by simp
        from setPropH_sealed[OF sealed_new_cell(1)[OF Cons.prems(1)] Cons.prems(2)
            sealed_new_cell(3)[OF Cons.prems(1)] s]
        show ?thesis using keeps_trans[OF sealed_new_cell(2)[OF Cons.prems(1)]] by blast
      next
        case False
        then show ?thesis using Inr Cons.prems(1) by simp
      qed
      show ?thesis
      proof (cases "getPropH h1 parent k")
        case (Inl e)
        then show ?thesis using child Inr h1 by simp
      next
        case nx: (Inr nx)
        have "refsIn (- A) nx"
          using getPropH_refsIn[OF _ Cons.prems(2) nx] h1 by simp
        from Cons.IH[OF _ this, of h1] h1
        have "sealed A (snd (materializeH h1 nx ks ck v))
            \<and> keeps A h1 (snd (materializeH h1 nx ks ck v))" by simp
        moreover have "materializeH h parent (k # ks) ck v = materializeH h1 nx ks ck v"
          using child Inr nx by simp
        ultimately show ?thesis using h1 keeps_trans by metis
      qed
    qed
  qed
qed

text \<open>The end of a mutating call: the new heap is stored, and the subscribers are notified.\<close>

lemma stored_guards:
  assumes "guards A s" and "sealed A h1" and "keeps A (heap s) h1"
    and "s' = s\<lparr>heap := h1\<rparr> \<or> s' = notifyMutationH notify path (s\<lparr>heap := h1\<rparr>)"
  shows "guards A s' \<and> frozen A s s'"
proof -
  have "pathsOk (pathCacheH (notifyMutationH notify path (s\<lparr>heap := h1\<rparr>)))"
    using assms(1) notifyMutationH_pathsOk[of "s\<lparr>heap := h1\<rparr>"] by (simp add: guards_def)
  then show ?thesis
    using assms by (auto simp: guards_def frozen_def)
qed

lemma property_of_guarded:
  assumes "guards A s"
  shows "\<exists>p'. getCachedPropertyH path False (snd (getCachedPathH path False s))
               = (Inr p', snd (getCachedPathH path False (snd (getCachedPathH path False s))))
            \<and> refsIn (- A) (parentPropH p') \<and> refsIn (- A) (fallbackPropH p')"
proof -
  let ?s1 = "snd (getCachedPathH path False s)"
  have g: "sealed A (heap s)" "refsIn (- A) (dataH s)" "refsIn (- A) (fallbackDataH s)"
      "propertyCacheH s = []"
    using assms by (simp_all add: guards_def)
  obtain p' where w: "walkParentsH (heap s) (parentKeys (fst (getCachedPathH path False ?s1)))
        \<lparr> parentPropH = dataH s, fallbackPropH = fallbackDataH s,
          initialPropH = initialDataH s \<rparr> = Inr p'"
      and p': "refsIn (- A) (parentPropH p')" "refsIn (- A) (fallbackPropH p')"
    using walkParentsH_outside[OF g(1), of "\<lparr> parentPropH = dataH s,
       fallbackPropH = fallbackDataH s, initialPropH = initialDataH s \<rparr>"] g(2,3)
    by (metis propInfoH.select_convs(1,2))
  show ?thesis using w p' g(4) by (simp add: getCachedPropertyH_fresh)
qed

lemma twice_guards:
  assumes "guards A s"
  shows "guards A (snd (getCachedPathH p False (snd (getCachedPathH path False s))))"
    and "frozen A s (snd (getCachedPathH p False (snd (getCachedPathH path False s))))"
proof -
  have "pathsOk (pathCacheH (snd (getCachedPathH p False (snd (getCachedPathH path False s)))))"
    using assms by (simp add: guards_def getCachedPathH_pathsOk)
  then show "guards A (snd (getCachedPathH p False (snd (getCachedPathH path False s))))"
    by (intro guards_frame[OF assms]) simp_all
  show "frozen A s (snd (getCachedPathH p False (snd (getCachedPathH path False s))))"
    by (simp add: frozen_frame)
qed

lemma setH_guards:
  assumes "guards A s" and "refsIn (- A) v"
  shows "guards A (snd (setH path v notify s)) \<and> frozen A s (snd (setH path v notify s))"
proof -
  let ?s2 = "snd (getCachedPathH path False (snd (getCachedPathH path False s)))"
  let ?pi = "fst (getCachedPathH path False s)"
  obtain p' where cp: "getCachedPropertyH path False (snd (getCachedPathH path False s))
               = (Inr p', ?s2)" and p': "refsIn (- A) (parentPropH p')"
    using property_of_guarded[OF assms(1)] by blast
  have g2: "guards A ?s2" "frozen A s ?s2" using twice_guards[OF assms(1)] by simp_all
  then have sl: "sealed A (heap s)" "refsIn (- A) (dataH s)"
    using assms(1) by (simp_all add: guards_def)
  define X where "X = (if \<not> truthyH (parentPropH p')
       then materializeH (heap ?s2) (dataH ?s2) (parentPaths ?pi) (currentKey ?pi) v
       else (case setPropH (heap ?s2) (parentPropH p') (currentKey ?pi) v of
               Inl e \<Rightarrow> (Inl e, heap ?s2)
             | Inr h1 \<Rightarrow> (Inr (), h1)))"
  have X: "sealed A (snd X) \<and> keeps A (heap ?s2) (snd X)"
  proof (cases "truthyH (parentPropH p')")
    case False
    then show ?thesis
      using materializeH_sealed[OF sl(1) sl(2) assms(2)] by (simp add: X_def)
  next
    case True
    show ?thesis
    proof (cases "setPropH (heap s) (parentPropH p') (currentKey ?pi) v")
      case (Inl e)
      then show ?thesis using True sl(1) by (simp add: X_def)
    next
      case (Inr h1)
      then show ?thesis using True setPropH_sealed[OF sl(1) p' assms(2) Inr] by (simp add: X_def)
    qed
  qed
  have eq: "setH path v notify s =
      (case X of
         (Inl e, h1) \<Rightarrow> (Inl e, ?s2\<lparr>heap := h1\<rparr>)
       | (Inr u, h1) \<Rightarrow> (Inr (), notifyMutationH notify path (?s2\<lparr>heap := h1\<rparr>)))"
    unfolding X_def by (simp add: setH_def Let_def case_prod_beta cp cong: sum.case_cong if_cong)
  have "snd (setH path v notify s) = ?s2\<lparr>heap := snd X\<rparr>
      \<or> snd (setH path v notify s) = notifyMutationH notify path (?s2\<lparr>heap := snd X\<rparr>)"
    unfolding eq by (cases X; cases "fst X") auto
  from stored_guards[OF g2(1) _ _ this] X
  have "guards A (snd (setH path v notify s))" "frozen A ?s2 (snd (setH path v notify s))"
    by simp_all
  then show ?thesis using frozen_trans[OF g2(2)] by blast
qed

lemma updateH_guards:
  assumes "guards A s"
    and "\<And>v. u = DirectH v \<Longrightarrow> refsIn (- A) v"
    and "\<And>g prev h. u = TransformH g \<Longrightarrow> sealed A h \<Longrightarrow> refsIn (- A) prev \<Longrightarrow>
           sealed A (snd (g prev h)) \<and> keeps A h (snd (g prev h)) \<and> refsIn (- A) (fst (g prev h))"
  shows "guards A (snd (updateH path u notify s)) \<and> frozen A s (snd (updateH path u notify s))"
proof -
  let ?s2 = "snd (getCachedPathH path False (snd (getCachedPathH path False s)))"
  let ?pi = "fst (getCachedPathH path False s)"
  obtain p' where cp: "getCachedPropertyH path False (snd (getCachedPathH path False s))
               = (Inr p', ?s2)" and p': "refsIn (- A) (parentPropH p')"
    using property_of_guarded[OF assms(1)] by blast
  have g2: "guards A ?s2" "frozen A s ?s2" using twice_guards[OF assms(1)] by simp_all
  have sl: "sealed A (heap s)"
    using assms(1) by (simp add: guards_def)
  define X where "X = (case u of
       TransformH g \<Rightarrow>
         (case getPropH (heap ?s2) (parentPropH p') (currentKey ?pi) of
            Inl e \<Rightarrow> (Inl e, heap ?s2)
          | Inr prev \<Rightarrow>
             (case setPropH (snd (g prev (heap ?s2))) (parentPropH p')
                     (currentKey ?pi) (fst (g prev (heap ?s2))) of
                Inl e \<Rightarrow> (Inl e, snd (g prev (heap ?s2)))
              | Inr h1 \<Rightarrow> (Inr (), h1)))
     | DirectH v \<Rightarrow>
         (case setPropH (heap ?s2) (parentPropH p') (currentKey ?pi) v of
            Inl e \<Rightarrow> (Inl e, heap ?s2)
          | Inr h1 \<Rightarrow> (Inr (), h1)))"
  have X: "sealed A (snd X) \<and> keeps A (heap ?s2) (snd X)"
  proof (cases u)
    case (DirectH v)
    show ?thesis
    proof (cases "setPropH (heap s) (parentPropH p') (currentKey ?pi) v")
      case (Inl e)
      then show ?thesis using DirectH sl by (simp add: X_def)
    next
      case (Inr h1)
      then show ?thesis
        using DirectH setPropH_sealed[OF sl p' assms(2)[OF DirectH] Inr] by (simp add: X_def)
    qed
  next
    case (TransformH g)
    show ?thesis
    proof (cases "getPropH (heap s) (parentPropH p') (currentKey ?pi)")
      case (Inl e)
      then show ?thesis using TransformH sl by (simp add: X_def)
    next
      case prev: (Inr prev)
      have "refsIn (- A) prev" using getPropH_refsIn[OF sl p' prev] .
      from assms(3)[OF TransformH sl this]
      have g: "sealed A (snd (g prev (heap s)))" "keeps A (heap s) (snd (g prev (heap s)))"
          "refsIn (- A) (fst (g prev (heap s)))"
        by simp_all
      show ?thesis
      proof (cases "setPropH (snd (g prev (heap s))) (parentPropH p') (currentKey ?pi)
                      (fst (g prev (heap s)))")
        case (Inl e)
        then show ?thesis using TransformH prev g by (simp add: X_def)
      next
        case (Inr h1)
        from setPropH_sealed[OF g(1) p' g(3) Inr]
        have "sealed A h1" "keeps A (heap s) h1" using keeps_trans[OF g(2)] by simp_all
        then show ?thesis using TransformH prev Inr by (simp add: X_def)
      qed
    qed
  qed
  have eq: "updateH path u notify s =
      (if \<not> truthyH (parentPropH p') then (Inr (), ?s2)
       else (case X of
         (Inl e, h1) \<Rightarrow> (Inl e, ?s2\<lparr>heap := h1\<rparr>)
       | (Inr u, h1) \<Rightarrow> (Inr (), notifyMutationH notify path (?s2\<lparr>heap := h1\<rparr>))))"
    unfolding X_def
    by (simp add: updateH_def Let_def case_prod_beta cp
             cong: sum.case_cong if_cong updaterH.case_cong)
  show ?thesis
  proof (cases "truthyH (parentPropH p')")
    case False
    then show ?thesis using g2 by (simp add: eq)
  next
    case True
    have "snd (updateH path u notify s) = ?s2\<lparr>heap := snd X\<rparr>
        \<or> snd (updateH path u notify s) = notifyMutationH notify path (?s2\<lparr>heap := snd X\<rparr>)"
      unfolding eq using True by (cases X; cases "fst X") auto
    from stored_guards[OF g2(1) _ _ this] X
    have "guards A (snd (updateH path u notify s))" "frozen A ?s2 (snd (updateH path u notify s))"
      by simp_all
    then show ?thesis using frozen_trans[OF g2(2)] by blast
  qed
qed

lemma removeH_guards:
  assumes "guards A s"
  shows "guards A (snd (removeH path notify s)) \<and> frozen A s (snd (removeH path notify s))"
proof -
  let ?s2 = "snd (getCachedPathH path False (snd (getCachedPathH path False s)))"
  let ?pi = "fst (getCachedPathH path False s)"
  obtain p' where cp: "getCachedPropertyH path False (snd (getCachedPathH path False s))
               = (Inr p', ?s2)" and p': "refsIn (- A) (parentPropH p')"
    using property_of_guarded[OF assms(1)] by blast
  have g2: "guards A ?s2" "frozen A s ?s2" using twice_guards[OF assms(1)] by simp_all
  have sl: "sealed A (heap s)"
    using assms(1) by (simp add: guards_def)
  have eq: "removeH path notify s =
      (if \<not> truthyH (parentPropH p') then (Inr (), ?s2)
       else (case deletePropH (heap ?s2) (parentPropH p') (currentKey ?pi) of
               Inl e \<Rightarrow> (Inl e, ?s2)
             | Inr h1 \<Rightarrow> (Inr (), notifyMutationH notify path (?s2\<lparr>heap := h1\<rparr>))))"
    by (simp add: removeH_def Let_def case_prod_beta cp cong: sum.case_cong if_cong)
  show ?thesis
  proof (cases "truthyH (parentPropH p')")
    case False
    then show ?thesis using g2 by (simp add: eq)
  next
    case True
    show ?thesis
    proof (cases "deletePropH (heap s) (parentPropH p') (currentKey ?pi)")
      case (Inl e)
      then show ?thesis using True g2 by (simp add: eq)
    next
      case (Inr h1)
      from deletePropH_sealed[OF sl p' Inr] have h1: "sealed A h1" "keeps A (heap ?s2) h1"
        by simp_all
      have "snd (removeH path notify s) = notifyMutationH notify path (?s2\<lparr>heap := h1\<rparr>)"
        using True Inr by (simp add: eq)
      from stored_guards[OF g2(1) h1, of "snd (removeH path notify s)" notify path] this
      show ?thesis using frozen_trans[OF g2(2)] by blast
    qed
  qed
qed

subsection \<open>reset\<close>

lemma deepCloneH_outside:
  assumes "sealed A h" and "repr h v t"
  shows "\<exists>v' h'. deepCloneH h v = Some (v', h') \<and> repr h' v' (deepClone t)
          \<and> refsIn (- A) v' \<and> sealed A h' \<and> keeps A h h'
          \<and> refsIn {length h..<length h'} v'
          \<and> (\<exists>cs. h' = h @ cs \<and> cellsIn {length h..<length h'} cs)"
proof -
  from deepCloneH_repr[OF assms(2)] obtain v' cs where
    c: "deepCloneH h v = Some (v', h @ cs)" "repr (h @ cs) v' (deepClone t)"
      "refsIn {length h..<length h + length cs} v'"
      "cellsIn {length h..<length h + length cs} cs"
    by blast
  have "cellsIn {length h..} cs" by (rule cellsIn_mono[OF c(4)]) auto
  then have "cellsIn (- A) cs" by (rule fresh_cells_outside[OF assms(1)])
  from sealed_append[OF assms(1) this] have s: "sealed A (h @ cs)" "keeps A h (h @ cs)"
    by simp_all
  have "refsIn {length h..} v'" by (rule refsIn_mono[OF c(3)]) auto
  then have "refsIn (- A) v'" by (rule fresh_ref_outside[OF assms(1)])
  then show ?thesis using c s by auto
qed

lemma resetH_guards:
  assumes "guards A s" and "snapshot A T s"
  shows "\<exists>s'. resetH notify s = Some s' \<and> guards A s' \<and> frozen A s s'
          \<and> repr (heap s') (dataH s') (deepClone T)
          \<and> subscribersH s' = subscribersH s
          \<and> callsH s' = callsH s @ (if notify
               then callsFor (subscribersH s) (map fst (subscribersH s)) else [])"
proof -
  have g: "sealed A (heap s)" "refsIn (- A) (fallbackDataH s)" "propertyCacheH s = []"
      "pathsOk (pathCacheH s)"
    using assms(1) by (simp_all add: guards_def)
  have "repr (heap s) (initialDataH s) T" using assms(2) by (simp add: snapshot_def)
  from deepCloneH_outside[OF g(1) this] obtain v' h' where
    c: "deepCloneH (heap s) (initialDataH s) = Some (v', h')" "repr h' v' (deepClone T)"
      "refsIn (- A) v'" "sealed A h'" "keeps A (heap s) h'"
    by blast
  let ?s1 = "s\<lparr>heap := h', dataH := v'\<rparr>"
  let ?s' = "if notify then foldl (\<lambda>st path. notifySubscribersH path st) ?s1
                              (map fst (subscribersH ?s1)) else ?s1"
  have r: "resetH notify s = Some ?s'"
    by (simp add: resetH_def c(1) Let_def)
  have "guards A ?s'" using g c by (simp add: guards_def)
  moreover have "frozen A s ?s'" using c by (simp add: frozen_def)
  moreover have "repr (heap ?s') (dataH ?s') (deepClone T)" using c by simp
  moreover have "subscribersH ?s' = subscribersH s" by simp
  moreover have "callsH ?s' = callsH s @ (if notify
               then callsFor (subscribersH s) (map fst (subscribersH s)) else [])"
    by (simp add: foldl_notifySubscribersH_calls)
  ultimately show ?thesis using r by blast
qed

subsection \<open>The caller\<close>

lemma allocVal_outside:
  assumes "sealed A h" and "allocVal h t = (v, h')"
  shows "sealed A h' \<and> keeps A h h' \<and> refsIn (- A) v \<and> repr h' v t"
proof -
  from alloc_fresh(1)[OF assms(2)] obtain cs where
    c: "h' = h @ cs" "repr h' v t" "refsIn {length h..<length h'} v"
      "cellsIn {length h..<length h'} cs"
    by blast
  have "cellsIn {length h..} cs" by (rule cellsIn_mono[OF c(4)]) auto
  then have "cellsIn (- A) cs" by (rule fresh_cells_outside[OF assms(1)])
  from sealed_append[OF assms(1) this] have s: "sealed A h'" "keeps A h h'"
    by (simp_all add: c(1))
  have "refsIn {length h..} v" by (rule refsIn_mono[OF c(3)]) auto
  then have "refsIn (- A) v" by (rule fresh_ref_outside[OF assms(1)])
  then show ?thesis using c s by auto
qed

lemma evalC_outside:
  assumes "sealed A h" and "list_all (refsIn (- A)) hs" and "refsIn (- A) prev"
  shows "sealed A (snd (evalC hs prev c h)) \<and> keeps A h (snd (evalC hs prev c h))
       \<and> refsIn (- A) (fst (evalC hs prev c h))"
proof (cases c)
  case (Lit t)
  then show ?thesis
    using allocVal_outside[OF assms(1), of t "fst (allocVal h t)" "snd (allocVal h t)"] by simp
next
  case (Held n)
  then show ?thesis using assms by (simp add: list_all_length)
next
  case Prev
  then show ?thesis using assms by simp
qed

lemma addSubscriberH_frame [simp]:
  "heap (addSubscriberH path cb s) = heap s"
  "dataH (addSubscriberH path cb s) = dataH s"
  "initialDataH (addSubscriberH path cb s) = initialDataH s"
  "fallbackDataH (addSubscriberH path cb s) = fallbackDataH s"
  "propertyCacheH (addSubscriberH path cb s) = propertyCacheH s"
  "pathCacheH (addSubscriberH path cb s) = pathCacheH s"
  by (simp_all add: addSubscriberH_def Let_def split: option.splits)

lemma removeSubscriberH_frame [simp]:
  "heap (removeSubscriberH path cb s) = heap s"
  "dataH (removeSubscriberH path cb s) = dataH s"
  "initialDataH (removeSubscriberH path cb s) = initialDataH s"
  "fallbackDataH (removeSubscriberH path cb s) = fallbackDataH s"
  "propertyCacheH (removeSubscriberH path cb s) = propertyCacheH s"
  "pathCacheH (removeSubscriberH path cb s) = pathCacheH s"
  by (simp_all add: removeSubscriberH_def Let_def split: option.splits)

lemma heap_update_guards:
  assumes "guards A s" and "sealed A h1" and "keeps A (heap s) h1"
  shows "guards A (s\<lparr>heap := h1\<rparr>)" "frozen A s (s\<lparr>heap := h1\<rparr>)"
  using assms by (simp_all add: guards_def frozen_def)

lemma stepH_guards:
  assumes "guards A (st w)" and "list_all (refsIn (- A)) (held w)" and "snapshot A T (st w)"
  shows "\<exists>w'. stepH c w = Some w' \<and> guards A (st w') \<and> list_all (refsIn (- A)) (held w')
           \<and> frozen A (st w) (st w')"
proof -
  have sl: "sealed A (heap (st w))" using assms(1) by (simp add: guards_def)
  have und: "refsIn (- A) HUndefined" by simp
  show ?thesis
  proof (cases c)
    case (GetH path)
    from getH_guards[OF assms(1), of path] obtain v where
      g: "guards A (snd (getH path (st w)))" "frozen A (st w) (snd (getH path (st w)))"
        "fst (getH path (st w)) = Inr v" "refsIn (- A) v"
      by blast
    have "stepH c w = Some (w\<lparr>st := snd (getH path (st w)), held := held w @ [v]\<rparr>)"
      using g(3) by (simp add: GetH case_prod_beta)
    then show ?thesis using g assms(2) by simp
  next
    case (SetH path e notify)
    let ?r = "evalC (held w) HUndefined e (heap (st w))"
    from evalC_outside[OF sl assms(2) und, of e]
    have e: "sealed A (snd ?r)" "keeps A (heap (st w)) (snd ?r)" "refsIn (- A) (fst ?r)"
      by simp_all
    let ?s1 = "(st w)\<lparr>heap := snd ?r\<rparr>"
    have g1: "guards A ?s1" "frozen A (st w) ?s1"
      using heap_update_guards[OF assms(1) e(1,2)] by simp_all
    from setH_guards[OF g1(1) e(3), of path notify]
    have "guards A (snd (setH path (fst ?r) notify ?s1))"
        "frozen A (st w) (snd (setH path (fst ?r) notify ?s1))"
      using frozen_trans[OF g1(2)] by simp_all
    then show ?thesis using assms(2) by (simp add: SetH case_prod_beta)
  next
    case (UpdateH path u notify)
    show ?thesis
    proof (cases u)
      case (DirectC e)
      let ?r = "evalC (held w) HUndefined e (heap (st w))"
      from evalC_outside[OF sl assms(2) und, of e]
      have e: "sealed A (snd ?r)" "keeps A (heap (st w)) (snd ?r)" "refsIn (- A) (fst ?r)"
        by simp_all
      let ?s1 = "(st w)\<lparr>heap := snd ?r\<rparr>"
      have g1: "guards A ?s1" "frozen A (st w) ?s1"
        using heap_update_guards[OF assms(1) e(1,2)] by simp_all
      have "guards A (snd (updateH path (DirectH (fst ?r)) notify ?s1))
          \<and> frozen A ?s1 (snd (updateH path (DirectH (fst ?r)) notify ?s1))"
        by (rule updateH_guards[OF g1(1)]) (use e(3) in simp_all)
      then have "guards A (snd (updateH path (DirectH (fst ?r)) notify ?s1))"
          "frozen A (st w) (snd (updateH path (DirectH (fst ?r)) notify ?s1))"
        using frozen_trans[OF g1(2)] by simp_all
      then show ?thesis using assms(2) by (simp add: UpdateH DirectC case_prod_beta)
    next
      case (TransformC f)
      let ?g = "\<lambda>prev. evalC (held w) prev (f prev)"
      have "guards A (snd (updateH path (TransformH ?g) notify (st w)))
          \<and> frozen A (st w) (snd (updateH path (TransformH ?g) notify (st w)))"
      proof (rule updateH_guards[OF assms(1)])
        fix g prev h
        assume "TransformH ?g = TransformH g" "sealed A h" "refsIn (- A) prev"
        then show "sealed A (snd (g prev h)) \<and> keeps A h (snd (g prev h))
            \<and> refsIn (- A) (fst (g prev h))"
          using evalC_outside[OF _ assms(2), of h prev "f prev"] by auto
      qed simp
      then show ?thesis using assms(2) by (simp add: UpdateH TransformC)
    qed
  next
    case (RemoveH path notify)
    then show ?thesis using removeH_guards[OF assms(1), of path notify] assms(2) by simp
  next
    case (ResetH notify)
    from resetH_guards[OF assms(1,3), of notify] obtain s' where
      "resetH notify (st w) = Some s'" "guards A s'" "frozen A (st w) s'"
      by blast
    then show ?thesis using assms(2) by (simp add: ResetH)
  next
    case (SubscribeH path cb)
    have "guards A (addSubscriberH path cb (st w))"
      by (rule guards_frame[OF assms(1)]) (use assms(1) in \<open>simp_all add: guards_def\<close>)
    then show ?thesis using assms(2) by (simp add: SubscribeH frozen_frame)
  next
    case (UnsubscribeH path cb)
    have "guards A (removeSubscriberH path cb (st w))"
      by (rule guards_frame[OF assms(1)]) (use assms(1) in \<open>simp_all add: guards_def\<close>)
    then show ?thesis using assms(2) by (simp add: UnsubscribeH frozen_frame)
  next
    case (ReadH e k)
    let ?r = "evalC (held w) HUndefined e (heap (st w))"
    from evalC_outside[OF sl assms(2) und, of e]
    have e: "sealed A (snd ?r)" "keeps A (heap (st w)) (snd ?r)" "refsIn (- A) (fst ?r)"
      by simp_all
    let ?s1 = "(st w)\<lparr>heap := snd ?r\<rparr>"
    have g1: "guards A ?s1" "frozen A (st w) ?s1"
      using heap_update_guards[OF assms(1) e(1,2)] by simp_all
    show ?thesis
    proof (cases "getPropH (snd ?r) (fst ?r) k")
      case (Inl x)
      then show ?thesis using g1 assms(2) by (simp add: ReadH case_prod_beta)
    next
      case (Inr v)
      have "refsIn (- A) v" using getPropH_refsIn[OF e(1,3) Inr] .
      then show ?thesis using Inr g1 assms(2) by (simp add: ReadH case_prod_beta)
    qed
  next
    case (WriteH e k e')
    let ?r = "evalC (held w) HUndefined e (heap (st w))"
    from evalC_outside[OF sl assms(2) und, of e]
    have e: "sealed A (snd ?r)" "keeps A (heap (st w)) (snd ?r)" "refsIn (- A) (fst ?r)"
      by simp_all
    let ?r' = "evalC (held w) HUndefined e' (snd ?r)"
    from evalC_outside[OF e(1) assms(2) und, of e']
    have e': "sealed A (snd ?r')" "keeps A (heap (st w)) (snd ?r')" "refsIn (- A) (fst ?r')"
      using keeps_trans[OF e(2)] by simp_all
    show ?thesis
    proof (cases "setPropH (snd ?r') (fst ?r) k (fst ?r')")
      case (Inl x)
      then show ?thesis
        using heap_update_guards[OF assms(1) e'(1,2)] assms(2)
        by (simp add: WriteH case_prod_beta)
    next
      case (Inr h3)
      from setPropH_sealed[OF e'(1) e(3) e'(3) Inr]
      have "sealed A h3" "keeps A (heap (st w)) h3" using keeps_trans[OF e'(2)] by simp_all
      from heap_update_guards[OF assms(1) this] show ?thesis
        using Inr assms(2) by (simp add: WriteH case_prod_beta)
    qed
  qed
qed

lemma runH_guards:
  assumes "guards A (st w)" and "list_all (refsIn (- A)) (held w)" and "snapshot A T (st w)"
  shows "\<exists>w'. runH cs w = Some w' \<and> guards A (st w') \<and> list_all (refsIn (- A)) (held w')
           \<and> frozen A (st w) (st w')"
  using assms
proof (induction cs arbitrary: w)
  case Nil
  then show ?case by simp
next
  case (Cons c cs)
  from stepH_guards[OF Cons.prems, of c] obtain w1 where
    1: "stepH c w = Some w1" "guards A (st w1)" "list_all (refsIn (- A)) (held w1)"
      "frozen A (st w) (st w1)"
    by blast
  have "snapshot A T (st w1)" using snapshot_frozen[OF Cons.prems(3) 1(4)] .
  from Cons.IH[OF 1(2,3) this] obtain w' where
    2: "runH cs w1 = Some w'" "guards A (st w')" "list_all (refsIn (- A)) (held w')"
      "frozen A (st w1) (st w')"
    by blast
  show ?case using 1(1) 2 frozen_trans[OF 1(4) 2(4)] by simp
qed

subsection \<open>The constructor\<close>

lemma cells_append:
  assumes "cellsIn {..<length h} h" and "cellsIn {length h..<length h + length cs} cs"
  shows "cellsIn {..<length (h @ cs)} (h @ cs)"
proof -
  have "cellsIn {..<length (h @ cs)} h" by (rule cellsIn_mono[OF assms(1)]) auto
  moreover have "cellsIn {..<length (h @ cs)} cs" by (rule cellsIn_mono[OF assms(2)]) auto
  ultimately show ?thesis by simp
qed

text \<open>The cells that a call has just allocated, in a heap without dangling addresses.\<close>

lemma sealed_fresh:
  assumes "cellsIn {..<length h} h" and "cellsIn {length h..<length h + length cs} cs"
  shows "sealed {length h..<length h + length cs} (h @ cs)"
    and "closedIn {length h..<length h + length cs} (h @ cs)"
proof -
  let ?A = "{length h..<length h + length cs}"
  have "\<forall>e\<in>set ((h @ cs) ! a). refsIn (- ?A) (snd e)" if "a < length (h @ cs)" "a \<notin> ?A" for a
  proof -
    have a: "a < length h" using that by auto
    then have "h ! a \<in> set h" by simp
    then have "\<forall>e\<in>set (h ! a). refsIn {..<length h} (snd e)"
      using assms(1) by (auto simp: cellsIn_def)
    moreover have "{..<length h} \<subseteq> - ?A" by auto
    ultimately show ?thesis using a refsIn_mono by (auto simp: nth_append)
  qed
  then show "sealed ?A (h @ cs)" by (auto simp: sealed_def)
  have "\<forall>e\<in>set ((h @ cs) ! a). refsIn ?A (snd e)" if "a \<in> ?A" for a
  proof -
    have "(h @ cs) ! a = cs ! (a - length h)" "a - length h < length cs"
      using that by (auto simp: nth_append)
    then have "(h @ cs) ! a \<in> set cs" by simp
    then show ?thesis using assms(2) by (auto simp: cellsIn_def)
  qed
  then show "closedIn ?A (h @ cs)" by (auto simp: closedIn_def)
qed

lemma orEmptyH_fresh:
  assumes "repr h v t"
  shows "\<exists>cs. snd (orEmptyH h v) = h @ cs \<and> cellsIn {length h..<length h + length cs} cs
           \<and> repr (h @ cs) (fst (orEmptyH h v)) (orElse t (JObj []))"
proof (cases "truthyH v")
  case True
  then have "truthy t" using repr_truthy[OF assms] by simp
  then show ?thesis using True assms by (intro exI[of _ "[]"]) (simp add: orEmptyH_def orElse_def)
next
  case False
  then have "\<not> truthy t" using repr_truthy[OF assms] by simp
  then show ?thesis
    using False by (intro exI[of _ "[[]]"]) (simp add: orEmptyH_def orElse_def cellsIn_def)
qed

lemma createH_guards:
  assumes wf: "cellsIn {..<length h} h"
    and ri: "repr h vi i" and rf: "repr h vf f"
    and bi: "refsIn {..<length h} vi" and bf: "refsIn {..<length h} vf"
  shows "\<exists>s A. createH h vi vf = Some s \<and> guards A s
           \<and> snapshot A (deepClone (orElse i (JObj []))) s
           \<and> repr (heap s) (dataH s) (deepClone (orElse i (JObj [])))
           \<and> refsIn (- A) vi \<and> refsIn (- A) vf
           \<and> subscribersH s = [] \<and> callsH s = []"
proof -
  let ?T = "deepClone (orElse i (JObj []))"
  \<comment> \<open>the state tree\<close>
  from orEmptyH_fresh[OF ri] obtain c1 where
    o1: "snd (orEmptyH h vi) = h @ c1" "cellsIn {length h..<length h + length c1} c1"
      "repr (h @ c1) (fst (orEmptyH h vi)) (orElse i (JObj []))"
    by blast
  from deepCloneH_repr[OF o1(3)] obtain dv csd where
    d: "deepCloneH (h @ c1) (fst (orEmptyH h vi)) = Some (dv, (h @ c1) @ csd)"
      "repr ((h @ c1) @ csd) dv ?T"
      "refsIn {length (h @ c1)..<length (h @ c1) + length csd} dv"
      "cellsIn {length (h @ c1)..<length (h @ c1) + length csd} csd"
    by blast
  define k1 where "k1 = (h @ c1) @ csd"
  have wf1: "cellsIn {..<length k1} k1"
    unfolding k1_def by (intro cells_append wf o1(2) d(4))
  have k1: "k1 = h @ (c1 @ csd)" by (simp add: k1_def)
  have ri1: "repr k1 vi i" unfolding k1 by (rule repr_append[OF ri])
  have rf1: "repr k1 vf f" unfolding k1 by (rule repr_append[OF rf])
  have dv1: "refsIn {..<length k1} dv" by (rule refsIn_mono[OF d(3)]) (auto simp: k1_def)
  \<comment> \<open>the initial snapshot\<close>
  from orEmptyH_fresh[OF ri1] obtain c2 where
    o2: "snd (orEmptyH k1 vi) = k1 @ c2" "cellsIn {length k1..<length k1 + length c2} c2"
      "repr (k1 @ c2) (fst (orEmptyH k1 vi)) (orElse i (JObj []))"
    by blast
  have wf2: "cellsIn {..<length (k1 @ c2)} (k1 @ c2)"
    by (intro cells_append wf1 o2(2))
  from deepCloneH_repr[OF o2(3)] obtain iv csi where
    i: "deepCloneH (k1 @ c2) (fst (orEmptyH k1 vi)) = Some (iv, (k1 @ c2) @ csi)"
      "repr ((k1 @ c2) @ csi) iv ?T"
      "refsIn {length (k1 @ c2)..<length (k1 @ c2) + length csi} iv"
      "cellsIn {length (k1 @ c2)..<length (k1 @ c2) + length csi} csi"
    by blast
  define A where "A = {length (k1 @ c2)..<length (k1 @ c2) + length csi}"
  define k2 where "k2 = (k1 @ c2) @ csi"
  have sl2: "sealed A k2" and cl2: "closedIn A k2"
    unfolding A_def k2_def using sealed_fresh[OF wf2 i(4)] by simp_all
  have low: "{..<length k1} \<subseteq> - A" "{..<length h} \<subseteq> - A"
    by (auto simp: A_def k1)
  have rf2: "repr k2 vf f" using repr_append[OF rf1, of "c2 @ csi"] by (simp add: k2_def)
  have rd2: "repr k2 dv ?T" using repr_append[OF d(2), of "c2 @ csi"] by (simp add: k2_def k1_def)
  \<comment> \<open>the fallback tree\<close>
  from orEmptyH_fresh[OF rf2] obtain c3 where
    o3: "snd (orEmptyH k2 vf) = k2 @ c3" "cellsIn {length k2..<length k2 + length c3} c3"
      "repr (k2 @ c3) (fst (orEmptyH k2 vf)) (orElse f (JObj []))"
    by blast
  have "cellsIn {length k2..} c3" by (rule cellsIn_mono[OF o3(2)]) auto
  then have "cellsIn (- A) c3" by (rule fresh_cells_outside[OF sl2])
  from sealed_append[OF sl2 this] have sl3: "sealed A (k2 @ c3)" "keeps A k2 (k2 @ c3)"
    by simp_all
  from deepCloneH_outside[OF sl3(1) o3(3)] obtain fv H cs where
    f: "deepCloneH (k2 @ c3) (fst (orEmptyH k2 vf)) = Some (fv, H)"
      "refsIn (- A) fv" "sealed A H" "keeps A (k2 @ c3) H" "H = (k2 @ c3) @ cs"
    by blast
  have kp: "keeps A k2 H" using keeps_trans[OF sl3(2) f(4)] .
  let ?s = "\<lparr> heap = H, dataH = dv, initialDataH = iv, fallbackDataH = fv,
              pathCacheH = [], propertyCacheH = [], dependencyCacheH = [],
              subscribersH = [], callsH = [] \<rparr>"
  have c: "createH h vi vf = Some ?s"
    using o1(1) d(1) o2(1) i(1) o3(1) f(1) by (simp add: createH_def k1_def k2_def)
  have "guards A ?s"
    using f(2,3) refsIn_mono[OF dv1 low(1)] by (simp add: guards_def pathsOk_def)
  moreover have "snapshot A ?T ?s"
  proof -
    have ia: "refsIn A iv" using i(3) by (simp add: A_def)
    have "repr k2 iv ?T" using i(2) by (simp add: k2_def)
    from repr_kept[OF this ia cl2 kp] closedIn_keeps[OF cl2 kp] ia
    show ?thesis by (simp add: snapshot_def)
  qed
  moreover have "repr (heap ?s) (dataH ?s) ?T"
    using repr_append[OF rd2, of "c3 @ cs"] by (simp add: f(5))
  moreover have "refsIn (- A) vi" "refsIn (- A) vf"
    using refsIn_mono[OF bi low(2)] refsIn_mono[OF bf low(2)] by simp_all
  ultimately show ?thesis using c by (intro exI[of _ ?s] exI[of _ A]) simp
qed

lemma startH_guards:
  "\<exists>w A. startH i f = Some w \<and> guards A (st w) \<and> list_all (refsIn (- A)) (held w)
         \<and> snapshot A (deepClone (orElse i (JObj []))) (st w)
         \<and> repr (heap (st w)) (dataH (st w)) (deepClone (orElse i (JObj [])))
         \<and> subscribersH (st w) = [] \<and> callsH (st w) = []"
proof -
  obtain vi h1 where a1: "allocVal [] i = (vi, h1)" by (cases "allocVal [] i")
  obtain vf h2 where a2: "allocVal h1 f = (vf, h2)" by (cases "allocVal h1 f")
  have z: "{0..<length h1} = {..<length h1}" by auto
  from alloc_fresh(1)[OF a1] have 1: "repr h1 vi i" "refsIn {..<length h1} vi"
      "cellsIn {..<length h1} h1"
    by (auto simp: z)
  from alloc_fresh(1)[OF a2] obtain cs where 2: "h2 = h1 @ cs" "repr h2 vf f"
      "refsIn {length h1..<length h2} vf" "cellsIn {length h1..<length h2} cs"
    by blast
  have wf: "cellsIn {..<length h2} h2"
    unfolding 2(1) by (rule cells_append[OF 1(3)]) (use 2(1,4) in simp)
  have ri: "repr h2 vi i" unfolding 2(1) by (rule repr_append[OF 1(1)])
  have bi: "refsIn {..<length h2} vi" by (rule refsIn_mono[OF 1(2)]) (simp add: 2(1))
  have bf: "refsIn {..<length h2} vf" by (rule refsIn_mono[OF 2(3)]) auto
  from createH_guards[OF wf ri 2(2) bi bf] obtain s A where
    s: "createH h2 vi vf = Some s" "guards A s"
      "snapshot A (deepClone (orElse i (JObj []))) s"
      "repr (heap s) (dataH s) (deepClone (orElse i (JObj [])))"
      "refsIn (- A) vi" "refsIn (- A) vf" "subscribersH s = []" "callsH s = []"
    by blast
  have "startH i f = Some \<lparr>st = s, held = [vi, vf]\<rparr>"
    by (simp add: startH_def a1 a2 s(1))
  then show ?thesis using s by (intro exI[of _ "\<lparr>st = s, held = [vi, vf]\<rparr>"] exI[of _ A]) simp
qed

subsection \<open>Reading the state tree\<close>

lemma map_of_list_all2:
  assumes "list_all2 (\<lambda>e e'. fst e = fst e' \<and> R (snd e) (snd e')) es kvs"
  shows "rel_option R (map_of es k) (map_of kvs k)"
  using assms by (induction es kvs rule: list_all2_induct) (auto simp: map_of_Cons_code)

lemma repr_undefined_null:
  assumes "repr h v t"
  shows "v = HUndefined \<longleftrightarrow> t = JUndefined" and "v = HNull \<longleftrightarrow> t = JNull"
  using assms by (cases t; cases v; simp)+

lemma getPropH_repr:
  assumes "repr h v t" and "getProp t k = Inr t'"
  shows "\<exists>v'. getPropH h v k = Inr v' \<and> repr h v' t'"
proof (cases t)
  case (JObj kvs)
  then obtain a where a: "v = HRef a" "a < length h"
    and l: "list_all2 (\<lambda>e e'. fst e = fst e' \<and> repr h (snd e) (snd e')) (h ! a) kvs"
    using assms(1) by (cases v) auto
  have "rel_option (repr h) (map_of (h ! a) k) (map_of kvs k)"
    using map_of_list_all2[OF l] .
  then have "repr h (case map_of (h ! a) k of None \<Rightarrow> HUndefined | Some x \<Rightarrow> x)
               (case map_of kvs k of None \<Rightarrow> JUndefined | Some x \<Rightarrow> x)"
    by (cases "map_of (h ! a) k"; cases "map_of kvs k") simp_all
  then show ?thesis using assms(2) a JObj by (auto simp: cell_def)
qed (use assms in auto)

lemma andPropH_repr:
  assumes "repr h c t" and "andProp t k = Inr x"
  shows "\<exists>v. andPropH h c k = Inr v \<and> repr h v x"
proof (cases "truthy t")
  case True
  then show ?thesis
    using assms repr_truthy[OF assms(1)] getPropH_repr[OF assms(1), of k x]
    by (simp add: andProp_def andPropH_def)
next
  case False
  then show ?thesis
    using assms repr_truthy[OF assms(1)] by (simp add: andProp_def andPropH_def)
qed

text \<open>
  The walk of \<open>getCachedProperty\<close> finds in the heap the container that it finds in the
  tree which the heap stands for.
\<close>

lemma walkParentsH_repr:
  assumes "repr h (parentPropH p) (parentProp q)"
    and "walkParents ks q = Inr q'" and "walkParentsH h ks p = Inr p'"
  shows "repr h (parentPropH p') (parentProp q')"
  using assms
proof (induction ks arbitrary: p q)
  case Nil
  then show ?case by simp
next
  case (Cons k ks)
  show ?case
  proof (cases "parentProp q \<noteq> JUndefined \<and> parentProp q \<noteq> JNull")
    case False
    then have "\<not> (parentPropH p \<noteq> HUndefined \<and> parentPropH p \<noteq> HNull)"
      using repr_undefined_null[OF Cons.prems(1)] by simp
    then show ?thesis using False Cons.prems(2,3) by auto
  next
    case True
    then have TrueH: "parentPropH p \<noteq> HUndefined \<and> parentPropH p \<noteq> HNull"
      using repr_undefined_null[OF Cons.prems(1)] by simp
    obtain pp where pp: "getProp (parentProp q) k = Inr pp"
      using True getProp_defined by blast
    obtain fp where fp: "(if fallbackProp q \<noteq> JUndefined \<and> fallbackProp q \<noteq> JNull
        then getProp (fallbackProp q) k else Inr (fallbackProp q)) = Inr fp"
      using getProp_defined[of "fallbackProp q" k] by (cases "fallbackProp q") auto
    obtain ip where ip: "(if initialProp q \<noteq> JUndefined \<and> initialProp q \<noteq> JNull
        then getProp (initialProp q) k else Inr (initialProp q)) = Inr ip"
      using getProp_defined[of "initialProp q" k] by (cases "initialProp q") auto
    have w: "walkParents (k # ks) q
            = walkParents ks \<lparr>parentProp = pp, fallbackProp = fp, initialProp = ip\<rparr>"
      using True by (simp only: walkParents.simps pp fp ip sum.case if_True simp_thms)
    obtain pp' where pp': "getPropH h (parentPropH p) k = Inr pp'" "repr h pp' pp"
      using getPropH_repr[OF Cons.prems(1) pp] by blast
    obtain fp' where fp': "(if fallbackPropH p \<noteq> HUndefined \<and> fallbackPropH p \<noteq> HNull
        then getPropH h (fallbackPropH p) k else Inr (fallbackPropH p)) = Inr fp'"
      using getPropH_total[of "fallbackPropH p" h k] by (cases "fallbackPropH p") auto
    obtain ip' where ip': "(if initialPropH p \<noteq> HUndefined \<and> initialPropH p \<noteq> HNull
        then getPropH h (initialPropH p) k else Inr (initialPropH p)) = Inr ip'"
      using getPropH_total[of "initialPropH p" h k] by (cases "initialPropH p") auto
    have wH: "walkParentsH h (k # ks) p
            = walkParentsH h ks \<lparr>parentPropH = pp', fallbackPropH = fp', initialPropH = ip'\<rparr>"
      using TrueH by (simp only: walkParentsH.simps pp'(1) fp' ip' sum.case if_True simp_thms)
    show ?thesis
      using Cons.IH[of "\<lparr>parentPropH = pp', fallbackPropH = fp', initialPropH = ip'\<rparr>"
          "\<lparr>parentProp = pp, fallbackProp = fp, initialProp = ip\<rparr>"]
        pp'(2) Cons.prems(2,3) w wH by simp
  qed
qed

lemma getH_of_tree:
  assumes "guards A s" and "repr (heap s) (dataH s) T"
    and "walkParents (parentKeys (parsePath path))
           \<lparr>parentProp = T, fallbackProp = fb, initialProp = ini\<rparr> = Inr q"
    and "andProp (parentProp q) (currentKey (parsePath path)) = Inr x" and "x \<noteq> JUndefined"
  shows "\<exists>v. fst (getH path s) = Inr v \<and> repr (heap s) v x"
proof -
  let ?s1 = "snd (getCachedPathH path False s)"
  let ?s2 = "snd (getCachedPathH path False ?s1)"
  have g: "sealed A (heap s)" "refsIn (- A) (dataH s)" "refsIn (- A) (fallbackDataH s)"
      "propertyCacheH s = []" "pathsOk (pathCacheH s)"
    using assms(1) by (simp_all add: guards_def)
  have ok1: "pathsOk (pathCacheH ?s1)" using g(5) by (simp add: getCachedPathH_pathsOk)
  have pi: "fst (getCachedPathH path False s) = parsePath path"
      "fst (getCachedPathH path False ?s1) = parsePath path"
    using g(5) ok1 by (simp_all add: getCachedPathH_fst)
  obtain p' where w: "walkParentsH (heap s) (parentKeys (parsePath path))
        \<lparr> parentPropH = dataH s, fallbackPropH = fallbackDataH s,
          initialPropH = initialDataH s \<rparr> = Inr p'"
      and p': "refsIn (- A) (fallbackPropH p')"
    using walkParentsH_outside[OF g(1), of "\<lparr> parentPropH = dataH s,
       fallbackPropH = fallbackDataH s, initialPropH = initialDataH s \<rparr>"] g(2,3)
    by (metis propInfoH.select_convs(1,2))
  have cp: "getCachedPropertyH path False ?s1 = (Inr p', ?s2)"
    using w g(4) by (simp add: getCachedPropertyH_fresh pi)
  have "repr (heap s) (parentPropH p') (parentProp q)"
    by (rule walkParentsH_repr[OF _ assms(3) w]) (simp add: assms(2))
  from andPropH_repr[OF this assms(4)] obtain ov where
    ov: "andPropH (heap s) (parentPropH p') (currentKey (parsePath path)) = Inr ov"
      "repr (heap s) ov x"
    by blast
  have "ov \<noteq> HUndefined" using repr_undefined_null(1)[OF ov(2)] assms(5) by simp
  then have "getH path s = (Inr ov, ?s2)"
    by (simp add: getH_def Let_def case_prod_beta cp ov(1) pi)
  then show ?thesis using ov(2) by simp
qed

text \<open>
  What a store constructed from the initial data alone returns: a value other than
  \<open>undefined\<close> is found in the state tree.
\<close>

lemma walkParents_no_fallback:
  assumes "walkParents ks p = Inr q" and "fallbackProp p = JObj [] \<or> fallbackProp p = JUndefined"
  shows "fallbackProp q = JObj [] \<or> fallbackProp q = JUndefined"
  using assms
proof (induction ks arbitrary: p)
  case Nil
  then show ?case by simp
next
  case (Cons k ks)
  show ?case
  proof (cases "parentProp p \<noteq> JUndefined \<and> parentProp p \<noteq> JNull")
    case False
    then show ?thesis using Cons.prems by auto
  next
    case True
    obtain pp where pp: "getProp (parentProp p) k = Inr pp"
      using True getProp_defined by blast
    obtain fp where fp: "(if fallbackProp p \<noteq> JUndefined \<and> fallbackProp p \<noteq> JNull
        then getProp (fallbackProp p) k else Inr (fallbackProp p)) = Inr fp"
      using getProp_defined[of "fallbackProp p" k] by (cases "fallbackProp p") auto
    obtain ip where ip: "(if initialProp p \<noteq> JUndefined \<and> initialProp p \<noteq> JNull
        then getProp (initialProp p) k else Inr (initialProp p)) = Inr ip"
      using getProp_defined[of "initialProp p" k] by (cases "initialProp p") auto
    have w: "walkParents (k # ks) p
            = walkParents ks \<lparr>parentProp = pp, fallbackProp = fp, initialProp = ip\<rparr>"
      using True by (simp only: walkParents.simps pp fp ip sum.case if_True simp_thms)
    have "fp = JUndefined" using fp Cons.prems(2) by (auto split: if_splits)
    then show ?thesis
      using Cons.IH[of "\<lparr>parentProp = pp, fallbackProp = fp, initialProp = ip\<rparr>"]
        Cons.prems(1) w by simp
  qed
qed

lemma get_of_initial_data:
  assumes "fst (get path (create i JUndefined)) = Inr x" and "x \<noteq> JUndefined"
  shows "\<exists>q. walkParents (parentKeys (parsePath path))
                \<lparr>parentProp = deepClone (orElse i (JObj [])), fallbackProp = JObj [],
                  initialProp = deepClone (orElse i (JObj []))\<rparr> = Inr q
            \<and> andProp (parentProp q) (currentKey (parsePath path)) = Inr x"
proof -
  let ?T = "deepClone (orElse i (JObj []))"
  let ?c = "create i JUndefined"
  obtain q where q: "walkParents (parentKeys (parsePath path))
      \<lparr>parentProp = ?T, fallbackProp = JObj [], initialProp = ?T\<rparr> = Inr q"
    using walkParents_total by blast
  have fb: "fallbackProp q = JObj [] \<or> fallbackProp q = JUndefined"
    using walkParents_no_fallback[OF q] by simp
  have nf: "andProp (fallbackProp q) (currentKey (parsePath path)) = Inr JUndefined"
    using fb by (auto simp: andProp_def)
  have pi: "fst (getCachedPath path False ?c) = parsePath path"
    by (rule getCachedPath_fst[OF create_cachesOk(1)])
  have "fallbackData ?c = JObj []"
    by (simp add: orElse_def fromEntries_def)
  then have "fst (getCachedProperty path False ?c) = Inr q"
    using q by (simp add: getCachedProperty_fresh pi del: create_fields(4))
  then have "fst (get path ?c) =
      (case andProp (parentProp q) (currentKey (parsePath path)) of
         Inl e \<Rightarrow> Inl e
       | Inr ov \<Rightarrow> if ov \<noteq> JUndefined then Inr ov else Inr JUndefined)"
    by (simp add: get_fst pi nf cong: sum.case_cong if_cong)
  then have "andProp (parentProp q) (currentKey (parsePath path)) = Inr x"
    using assms by (auto split: sum.splits if_splits)
  then show ?thesis using q by blast
qed

text \<open>A value of the heap stands for one tree at most.\<close>

lemma repr_unique: "repr h v t \<Longrightarrow> repr h v t' \<Longrightarrow> t = t'"
proof (induction t arbitrary: v t')
  case (JObj kvs)
  then obtain a where a: "v = HRef a"
    and l: "list_all2 (\<lambda>e e'. fst e = fst e' \<and> repr h (snd e) (snd e')) (h ! a) kvs"
    by (cases v) auto
  obtain kvs' where t': "t' = JObj kvs'"
    using JObj.prems(2) a by (cases t') auto
  have l': "list_all2 (\<lambda>e e'. fst e = fst e' \<and> repr h (snd e) (snd e')) (h ! a) kvs'"
    using JObj.prems(2) a t' by simp
  have len: "length kvs = length (h ! a)" "length kvs' = length (h ! a)"
    using list_all2_lengthD[OF l] list_all2_lengthD[OF l'] by simp_all
  have "kvs ! n = kvs' ! n" if "n < length kvs" for n
  proof (rule prod_eqI)
    have 1: "fst (h ! a ! n) = fst (kvs ! n)" "repr h (snd (h ! a ! n)) (snd (kvs ! n))"
      using list_all2_nthD[OF l, of n] that len by simp_all
    have 2: "fst (h ! a ! n) = fst (kvs' ! n)" "repr h (snd (h ! a ! n)) (snd (kvs' ! n))"
      using list_all2_nthD[OF l', of n] that len by simp_all
    show "fst (kvs ! n) = fst (kvs' ! n)" using 1(1) 2(1) by simp
    have "kvs ! n \<in> set kvs" using that by simp
    from JObj.IH[OF this snd_in_snds 1(2) 2(2)]
    show "snd (kvs ! n) = snd (kvs' ! n)" .
  qed
  then have "kvs = kvs'" using len by (simp add: list_eq_iff_nth_eq)
  then show ?case by (simp add: t')
next
  case JUndefined
  then show ?case by (cases t') simp_all
next
  case JNull
  then show ?case by (cases t') simp_all
next
  case (JBool b)
  then show ?case by (cases t') simp_all
next
  case (JNum n)
  then show ?case by (cases t') simp_all
next
  case (JStr s)
  then show ?case by (cases t') simp_all
qed

subsection \<open>The initial snapshot after reset\<close>



text \<open>
  The fallback tree is not restored. In the calls of the example above the caller
  stores the container that \<open>get\<close> returned for \<open>theme\<close>, which is the container of the
  fallback tree, and writes to it through the store; a path that the snapshot leaves
  undefined then reads \<open>light\<close> after \<open>reset\<close>, where it read \<open>dark\<close> at construction.
\<close>

lemma fallback_outlives_reset:
  "(case startH (JObj [(''user'', JObj [(''name'', JStr ''John''), (''age'', JNum 30)])])
               (JObj [(''theme'', JObj [(''mode'', JStr ''dark'')])]) of
      None \<Rightarrow> False
    | Some w0 \<Rightarrow>
        fst (getH ''theme.mode'' (st w0)) = Inr (HStr ''dark'')
        \<and> (case Option.bind
                   (runH [SubscribeH ''settings'' 1,
                          GetH ''user'',
                          WriteH (Held 2) ''name'' (Lit (JStr ''X'')),
                          WriteH (Held 0) ''user'' (Lit JNull),
                          UpdateH ''user.age''
                            (TransformC (\<lambda>v. case v of HNum n \<Rightarrow> Lit (JNum (n + 1))
                                              | _ \<Rightarrow> Prev)) True,
                          GetH ''theme'',
                          SetH ''tmp'' (Held 3) True,
                          SetH ''tmp.mode'' (Lit (JStr ''light'')) True] w0)
                   (\<lambda>w. resetH True (st w)) of
             None \<Rightarrow> False
           | Some s' \<Rightarrow> fst (getH ''theme.mode'' s') = Inr (HStr ''light'')))"
  by code_simp

end
